theory Spec2Isabelle
  imports Main "HOL-Library.Word"
begin

unbundle bit_operations_syntax

section \<open>The assembler of anasm: data model\<close>

text \<open>
  The development embeds \<^verbatim>\<open>internal/compiler/compiler.go\<close>: the preprocessing pass
  (\<^verbatim>\<open>preproc\<close>), the compile pass (\<^verbatim>\<open>compile\<close>, \<^verbatim>\<open>compileInst\<close>, \<^verbatim>\<open>compileLet\<close>,
  \<^verbatim>\<open>argToWord\<close>, \<^verbatim>\<open>writeMemory\<close>, \<^verbatim>\<open>writeInst\<close>, \<^verbatim>\<open>next\<close>) and the container
  writer (\<^verbatim>\<open>CompileToBinary\<close>).
\<close>

type_synonym Word = "64 word"
type_synonym byte = "8 word"

text \<open>
  The token kinds that \<^verbatim>\<open>compiler.go\<close> refers to as \<^verbatim>\<open>token.EOF\<close>, \<^verbatim>\<open>token.Word\<close>, ...
  The constructors carry the prefix \<open>T\<close> because \<open>Word\<close>, \<open>Char\<close> and \<open>String\<close> are
  names of the library.
\<close>

datatype token_type =
    TEOF | TError | TWord | TLabel | TLet
  | TSize8 | TSize16 | TSize32 | TSize64
  | TDec | THex | TOct | TBin | TChar | TFloat | TString | TAddr | TComma

text \<open>Modelled from the spec: the source position \<^verbatim>\<open>token.Where\<close> carried by every token;
  the package \<^verbatim>\<open>token\<close> is not among the sources. It only appears inside error values.\<close>

record position =
  Path :: string
  Row :: nat
  Col :: nat

text \<open>Modelled from the spec: \<^verbatim>\<open>token.Token\<close>, "{ kind, textual payload, source position }",
  with the field names \<^verbatim>\<open>Type\<close>, \<^verbatim>\<open>Data\<close>, \<^verbatim>\<open>Where\<close> that \<^verbatim>\<open>compiler.go\<close> reads.
  The payload is a Go string, that is a sequence of bytes.\<close>

record token =
  Type :: token_type
  Data :: string
  Where :: position

text \<open>Modelled from the spec: \<^verbatim>\<open>Token.IsArg\<close> of the absent package \<^verbatim>\<open>token\<close>; a token is
  argument-shaped when it is "one of: integer literal in base 10/16/8/2, character literal,
  floating-point literal, or address/name reference".\<close>

definition IsArg :: "token \<Rightarrow> bool" where
  "IsArg t = (Type t \<in> {TDec, THex, TOct, TBin, TChar, TFloat, TAddr})"

text \<open>The instruction descriptor, the value type of the table \<^verbatim>\<open>Insts\<close>. The table itself
  is not among the sources: every function that reads it takes it as the parameter \<open>I\<close>.\<close>

record inst =
  Op :: byte
  HasArg :: bool

type_synonym insts = "string \<rightharpoonup> inst"

subsection \<open>Failures\<close>

text \<open>Every \<^verbatim>\<open>c.Error\<close>, \<^verbatim>\<open>c.ErrorFrom\<close> and \<^verbatim>\<open>fmt.Errorf\<close> of the source is one constructor,
  with the position and the value the message is formatted from.\<close>

datatype error =
    LexError position string
  | RedefinitionOfLabel position string
  | EntryNotFound
  | Unexpected position token
  | ExpectedIdentifier position token
  | RedefinedVariable position string
  | LabelExists position string
  | ExpectedSize position token
  | ExpectedData position token
  | WrongElementSize nat
  | NotAnInstruction position string
  | ExpectsArgument position string
  | ExpectsNoArguments position string
  | ExpectedArgument position token
  | AddressNotDeclared position string
  | ExpectedRegisterArgument position token
  | CreateFailed string

text \<open>A Go panic does not return to the caller; it is kept apart from the returned errors.\<close>

datatype panic =
    ParseFailed string
  | CharTooLong
  | IndexOutOfRange

datatype failure = Err error | Panic panic

type_synonym 'a result = "failure + 'a"

subsection \<open>The compiler state\<close>

text \<open>
  The struct \<^verbatim>\<open>Compiler\<close>. The cursor \<^verbatim>\<open>pos\<close> is a \<^verbatim>\<open>Word\<close> in the source; it only
  counts upwards from 0 and indexes a slice, whose length is below \<open>2 ^ 63\<close>, so it is kept
  as a natural number and converted with \<open>of_nat\<close> where it is stored as a \<^verbatim>\<open>Word\<close>
  (which is the wrap-around of the 64-bit counter). The lexer \<^verbatim>\<open>l\<close> is the list of the
  tokens it is going to deliver and is passed to \<open>preproc\<close> as an argument.
\<close>

record Compiler =
  toks :: "token list"
  pos :: nat
  tok :: token
  programSize :: Word
  memorySize :: Word
  entryPoint :: Word
  labels :: "string \<rightharpoonup> Word"
  vars :: "string \<rightharpoonup> Word"
  memory :: "byte list"
  program :: "byte list"

subsection \<open>Library functions of Go used by the compiler\<close>

text \<open>\<^verbatim>\<open>binary.Write(buf, binary.BigEndian, v)\<close> for an unsigned integer of \<open>n\<close> bytes, given
  as a \<^verbatim>\<open>Word\<close>: the \<open>n\<close> low bytes, most significant first (this is also the narrowing
  conversion \<^verbatim>\<open>uint8(data)\<close>, \<^verbatim>\<open>uint16(data)\<close>, \<^verbatim>\<open>uint32(data)\<close>).\<close>

definition be_bytes :: "nat \<Rightarrow> Word \<Rightarrow> byte list" where
  "be_bytes n w = map (\<lambda>i. ucast (drop_bit (8 * i) w)) (rev [0..<n])"

text \<open>The value of one digit in \<^verbatim>\<open>strconv.ParseUint\<close>: decimal digits, and letters of either
  case (\<^verbatim>\<open>lower(c) = c | ('x' - 'X')\<close>) counting from 10.\<close>

definition digit_val :: "char \<Rightarrow> nat option" where
  "digit_val c =
     (let b = (of_char c :: byte) in
      if 48 \<le> b \<and> b \<le> 57 then Some (unat (b - 48))
      else if 97 \<le> (b OR 32) \<and> (b OR 32) \<le> 122 then Some (unat ((b OR 32) - 97 + 10))
      else None)"

fun ParseUint_digits :: "nat \<Rightarrow> string \<Rightarrow> nat \<Rightarrow> nat option" where
  "ParseUint_digits base [] n = Some n"
| "ParseUint_digits base (c # cs) n =
     (case digit_val c of
        None \<Rightarrow> None
      | Some d \<Rightarrow> if d \<ge> base then None else ParseUint_digits base cs (n * base + d))"

text \<open>\<^verbatim>\<open>strconv.ParseUint(s, base, 64)\<close> for an explicit base from 2 to 36 (no prefix and no
  underscore is accepted then); \<open>None\<close> where Go returns an error, syntax or range.\<close>

definition ParseUint :: "string \<Rightarrow> nat \<Rightarrow> nat option" where
  "ParseUint s base =
     (if s = [] then None
      else case ParseUint_digits base s 0 of
             None \<Rightarrow> None
           | Some n \<Rightarrow> if n < 2 ^ 64 then Some n else None)"

text \<open>\<^verbatim>\<open>strconv.ParseInt(s, base, 64)\<close>: an optional sign, then \<^verbatim>\<open>ParseUint\<close>, then the
  range check against \<open>2 ^ 63\<close>.\<close>

definition ParseInt :: "string \<Rightarrow> nat \<Rightarrow> int option" where
  "ParseInt s base =
     (case s of
        [] \<Rightarrow> None
      | c # cs \<Rightarrow>
          (let neg = (c = CHR ''-'');
               s' = (if c = CHR ''+'' \<or> c = CHR ''-'' then cs else s)
           in case ParseUint s' base of
                None \<Rightarrow> None
              | Some un \<Rightarrow>
                  if \<not> neg \<and> un \<ge> 2 ^ 63 then None
                  else if neg \<and> un > 2 ^ 63 then None
                  else Some (if neg then - int un else int un)))"

subsection \<open>Argument to Word\<close>

text \<open>
  \<^verbatim>\<open>argToWord\<close>. The conversion of a floating-point payload
  (\<^verbatim>\<open>math.Float64bits\<close> of \<^verbatim>\<open>strconv.ParseFloat\<close>) is the parameter \<open>F\<close>, \<open>None\<close> where
  the parse returns an error. The error messages are formatted with \<^verbatim>\<open>c.tok.Where\<close>.
\<close>

type_synonym floatbits = "string \<Rightarrow> Word option"

definition parseBase :: "token \<Rightarrow> nat \<Rightarrow> Word result" where
  "parseBase t base =
     (case ParseInt (Data t) base of
        None \<Rightarrow> Inl (Panic (ParseFailed (Data t)))
      | Some data \<Rightarrow> Inr (word_of_int data))"

definition argToWord :: "floatbits \<Rightarrow> Compiler \<Rightarrow> token \<Rightarrow> Word result" where
  "argToWord F c t =
     (case Type t of
        TDec \<Rightarrow> parseBase t 10
      | THex \<Rightarrow> parseBase t 16
      | TOct \<Rightarrow> parseBase t 8
      | TBin \<Rightarrow> parseBase t 2
      | TChar \<Rightarrow>
          if length (Data t) > 1 then Inl (Panic CharTooLong)
          else (case Data t of
                  [] \<Rightarrow> Inl (Panic IndexOutOfRange)
                | ch # _ \<Rightarrow> Inr (of_char ch))
      | TFloat \<Rightarrow>
          (case F (Data t) of
             None \<Rightarrow> Inl (Panic (ParseFailed (Data t)))
           | Some w \<Rightarrow> Inr w)
      | TAddr \<Rightarrow>
          (case labels c (Data t) of
             Some data \<Rightarrow> Inr data
           | None \<Rightarrow>
               (case vars c (Data t) of
                  Some data \<Rightarrow> Inr data
                | None \<Rightarrow> Inl (Err (AddressNotDeclared (Where (tok c)) (Data t)))))
      | _ \<Rightarrow> Inl (Err (ExpectedRegisterArgument (Where (tok c)) t)))"

subsection \<open>Cursor and output buffers\<close>

text \<open>\<^verbatim>\<open>next\<close> (renamed, \<open>next\<close> being a keyword): stay on the end marker, otherwise advance;
  reading \<^verbatim>\<open>c.toks[c.pos]\<close> past the end of the slice is Go's index panic.\<close>

definition nextTok :: "Compiler \<Rightarrow> Compiler result" where
  "nextTok c =
     (if Type (tok c) = TEOF then Inr c
      else if pos c + 1 < length (toks c)
           then Inr (c\<lparr>pos := pos c + 1, tok := toks c ! (pos c + 1)\<rparr>)
           else Inl (Panic IndexOutOfRange))"

text \<open>\<^verbatim>\<open>writeMemory\<close>: the datum narrowed to \<open>size\<close> bytes, big-endian.\<close>

definition writeMemory :: "Compiler \<Rightarrow> Word \<Rightarrow> nat \<Rightarrow> Compiler result" where
  "writeMemory c data sz =
     (if sz = 1 \<or> sz = 2 \<or> sz = 4 \<or> sz = 8
      then Inr (c\<lparr>memory := memory c @ be_bytes sz data\<rparr>)
      else Inl (Err (WrongElementSize sz)))"

text \<open>\<^verbatim>\<open>writeInst\<close>: the opcode byte, then the operand as eight bytes, big-endian.\<close>

definition writeInst :: "Compiler \<Rightarrow> byte \<Rightarrow> Word \<Rightarrow> Compiler" where
  "writeInst c op data = c\<lparr>program := program c @ [op] @ be_bytes 8 data\<rparr>"

subsection \<open>Instructions\<close>

text \<open>\<^verbatim>\<open>compileInst\<close>, with the table \<^verbatim>\<open>Insts\<close> as \<open>I\<close>. The third test of the source
  (\<^verbatim>\<open>if !c.tok.IsArg()\<close> once more) is kept although it cannot succeed.\<close>

definition compileInst :: "insts \<Rightarrow> floatbits \<Rightarrow> Compiler \<Rightarrow> Compiler result" where
  "compileInst I F c =
     (let t = tok c in
      case I (Data t) of
        None \<Rightarrow> Inl (Err (NotAnInstruction (Where (tok c)) (Data t)))
      | Some inst \<Rightarrow>
          (case nextTok c of
             Inl e \<Rightarrow> Inl e
           | Inr c1 \<Rightarrow>
               if \<not> IsArg (tok c1) then
                 (if HasArg inst then Inl (Err (ExpectsArgument (Where t) (Data t)))
                  else Inr (writeInst c1 (Op inst) 0))
               else if \<not> HasArg inst then Inl (Err (ExpectsNoArguments (Where t) (Data t)))
               else if \<not> IsArg (tok c1) then Inl (Err (ExpectedArgument (Where (tok c1)) (tok c1)))
               else (case argToWord F c1 (tok c1) of
                       Inl e \<Rightarrow> Inl e
                     | Inr data \<Rightarrow>
                         (case nextTok c1 of
                            Inl e \<Rightarrow> Inl e
                          | Inr c2 \<Rightarrow> Inr (writeInst c2 (Op inst) data)))))"

subsection \<open>Variable declarations\<close>

text \<open>
  Go's \<^verbatim>\<open>for _, ch := range s\<close> over a string decodes UTF-8: a byte below \<open>0x80\<close> is
  itself; otherwise \<^verbatim>\<open>decoderune\<close> of the runtime accepts a well-formed sequence of two,
  three or four bytes that is not overlong, not a surrogate and at most \<open>0x10FFFF\<close>, and
  yields \<open>0xFFFD\<close> with width 1 for anything else. The result is the rune and its width.
\<close>

definition contb :: "nat \<Rightarrow> bool" where
  "contb b = (128 \<le> b \<and> b \<le> 191)"

fun decoderune :: "nat list \<Rightarrow> nat \<times> nat" where
  "decoderune [] = (65533, 1)"
| "decoderune (b0 # bs) =
     (if b0 < 128 then (b0, 1)
      else if 192 \<le> b0 \<and> b0 < 224 then
        (case bs of
           b1 # _ \<Rightarrow>
             (let r = (b0 mod 32) * 64 + b1 mod 64
              in if contb b1 \<and> 127 < r then (r, 2) else (65533, 1))
         | _ \<Rightarrow> (65533, 1))
      else if 224 \<le> b0 \<and> b0 < 240 then
        (case bs of
           b1 # b2 # _ \<Rightarrow>
             (let r = (b0 mod 16) * 4096 + (b1 mod 64) * 64 + b2 mod 64
              in if contb b1 \<and> contb b2 \<and> 2047 < r \<and> \<not> (55296 \<le> r \<and> r \<le> 57343)
                 then (r, 3) else (65533, 1))
         | _ \<Rightarrow> (65533, 1))
      else if 240 \<le> b0 \<and> b0 < 248 then
        (case bs of
           b1 # b2 # b3 # _ \<Rightarrow>
             (let r = (b0 mod 8) * 262144 + (b1 mod 64) * 4096 + (b2 mod 64) * 64 + b3 mod 64
              in if contb b1 \<and> contb b2 \<and> contb b3 \<and> 65535 < r \<and> r \<le> 1114111
                 then (r, 4) else (65533, 1))
         | _ \<Rightarrow> (65533, 1))
      else (65533, 1))"

fun runes_of :: "nat list \<Rightarrow> nat list" where
  "runes_of [] = []"
| "runes_of (b # bs) =
     (case decoderune (b # bs) of (r, w) \<Rightarrow> r # runes_of (drop (w - 1) bs))"

definition runes :: "string \<Rightarrow> nat list" where
  "runes s = runes_of (map of_char s)"

text \<open>The inner loop of the string branch of \<^verbatim>\<open>compileLet\<close>: every character is written
  at the element size and the memory size grows by that size.\<close>

fun writeString :: "Compiler \<Rightarrow> nat list \<Rightarrow> nat \<Rightarrow> Compiler result" where
  "writeString c [] sz = Inr c"
| "writeString c (ch # chs) sz =
     (case writeMemory c (of_nat ch) sz of
        Inl e \<Rightarrow> Inl e
      | Inr c' \<Rightarrow> writeString (c'\<lparr>memorySize := memorySize c' + of_nat sz\<rparr>) chs sz)"

text \<open>One data item of the list of a \<^verbatim>\<open>let\<close>: the body of the \<^verbatim>\<open>for\<close> loop of
  \<^verbatim>\<open>compileLet\<close> up to its \<^verbatim>\<open>c.next()\<close>.\<close>

definition letItem :: "floatbits \<Rightarrow> nat \<Rightarrow> Compiler \<Rightarrow> Compiler result" where
  "letItem F sz c =
     (if Type (tok c) = TString then writeString c (runes (Data (tok c))) sz
      else if \<not> IsArg (tok c) then Inl (Err (ExpectedData (Where (tok c)) (tok c)))
      else (case argToWord F c (tok c) of
              Inl e \<Rightarrow> Inl e
            | Inr data \<Rightarrow>
                (case writeMemory c data sz of
                   Inl e \<Rightarrow> Inl e
                 | Inr c' \<Rightarrow> Inr (c'\<lparr>memorySize := memorySize c' + of_nat sz\<rparr>))))"

text \<open>The \<^verbatim>\<open>for\<close> loop of \<^verbatim>\<open>compileLet\<close>: an item, \<^verbatim>\<open>c.next()\<close>, and another round
  after a comma. Every round moves the cursor, which is the measure.\<close>

function letData :: "floatbits \<Rightarrow> nat \<Rightarrow> Compiler \<Rightarrow> Compiler result" where
  "letData F sz c =
     (case letItem F sz c of
        Inl e \<Rightarrow> Inl e
      | Inr c1 \<Rightarrow>
          (case nextTok c1 of
             Inl e \<Rightarrow> Inl e
           | Inr c2 \<Rightarrow>
               if Type (tok c2) \<noteq> TComma then Inr c2
               else (case nextTok c2 of
                       Inl e \<Rightarrow> Inl e
                     | Inr c3 \<Rightarrow> letData F sz c3)))"
  by pat_completeness auto
termination
proof (relation "measure (\<lambda>(F, sz, c). length (toks c) - pos c)")
  show "wf (measure (\<lambda>(F, sz, c). length (toks c) - pos c))" by simp
next
  fix F :: floatbits and sz :: nat and c c1 c2 c3 :: Compiler
  assume item: "letItem F sz c = Inr c1"
    and n1: "nextTok c1 = Inr c2"
    and comma: "\<not> Type (tok c2) \<noteq> TComma"
    and n2: "nextTok c2 = Inr c3"
  have wm: "toks d' = toks d \<and> pos d' = pos d"
    if "writeMemory d w sz = Inr d'" for d d' w
    using that unfolding writeMemory_def by (auto split: if_splits)
  have ws: "toks d' = toks d \<and> pos d' = pos d"
    if "writeString d rs sz = Inr d'" for d d' rs
    using that
  proof (induction d rs sz arbitrary: d' rule: writeString.induct)
    case (1 c sz)
    then show ?case by simp
  next
    case (2 c ch chs sz)
    from "2.prems"(1) obtain x where x: "writeMemory c (of_nat ch) sz = Inr x"
      and r: "writeString (x\<lparr>memorySize := memorySize x + of_nat sz\<rparr>) chs sz = Inr d'"
      by (simp split: sum.splits)
    have "toks x = toks c \<and> pos x = pos c"
      using x unfolding writeMemory_def by (auto split: if_splits)
    with "2.IH" [OF x r] show ?case by simp
  qed
  have a: "toks c1 = toks c \<and> pos c1 = pos c"
  proof (cases "Type (tok c) = TString")
    case True
    with item ws show ?thesis by (simp add: letItem_def)
  next
    case False
    with item obtain w d where "writeMemory c w sz = Inr d"
      and "c1 = d\<lparr>memorySize := memorySize d + of_nat sz\<rparr>"
      by (auto simp: letItem_def split: if_splits sum.splits)
    with wm [of c w d] show ?thesis by simp
  qed
  have b: "toks c2 = toks c1 \<and> pos c1 \<le> pos c2"
    using n1 unfolding nextTok_def by (auto split: if_splits)
  have d: "toks c3 = toks c2 \<and> pos c3 = pos c2 + 1 \<and> pos c2 + 1 < length (toks c2)"
    using n2 comma unfolding nextTok_def by (auto split: if_splits)
  from a b d have "toks c3 = toks c" and "pos c < pos c3" and "pos c3 < length (toks c)"
    by auto
  then show "((F, sz, c3), (F, sz, c)) \<in> measure (\<lambda>(F, sz, c). length (toks c) - pos c)"
    by simp
qed

declare letData.simps [simp del]

text \<open>The \<^verbatim>\<open>switch\<close> of \<^verbatim>\<open>compileLet\<close> over the size specifier.\<close>

definition elemSize :: "token_type \<Rightarrow> nat option" where
  "elemSize ty =
     (if ty = TSize8 then Some 1
      else if ty = TSize16 then Some 2
      else if ty = TSize32 then Some 4
      else if ty = TSize64 then Some 8
      else None)"

text \<open>\<^verbatim>\<open>compileLet\<close>. The name is bound to \<^verbatim>\<open>c.memorySize + 1\<close> before the size
  specifier is read.\<close>

definition compileLet :: "floatbits \<Rightarrow> Compiler \<Rightarrow> Compiler result" where
  "compileLet F c =
     (case nextTok c of
        Inl e \<Rightarrow> Inl e
      | Inr c1 \<Rightarrow>
          if Type (tok c1) \<noteq> TWord
          then Inl (Err (ExpectedIdentifier (Where (tok c1)) (tok c1)))
          else
            (let name = Data (tok c1) in
             if vars c1 name \<noteq> None then Inl (Err (RedefinedVariable (Where (tok c1)) name))
             else if labels c1 name \<noteq> None then Inl (Err (LabelExists (Where (tok c1)) name))
             else
               (case nextTok (c1\<lparr>vars := (vars c1)(name \<mapsto> memorySize c1 + 1)\<rparr>) of
                  Inl e \<Rightarrow> Inl e
                | Inr c3 \<Rightarrow>
                    (case elemSize (Type (tok c3)) of
                       None \<Rightarrow> Inl (Err (ExpectedSize (Where (tok c3)) (tok c3)))
                     | Some sz \<Rightarrow>
                         (case nextTok c3 of
                            Inl e \<Rightarrow> Inl e
                          | Inr c4 \<Rightarrow> letData F sz c4)))))"

subsection \<open>The compile pass\<close>

text \<open>One round of the loop of \<^verbatim>\<open>compile\<close>, for a current token that is not the end
  marker: the \<^verbatim>\<open>switch\<close> over \<^verbatim>\<open>c.toks[c.pos].Type\<close>.\<close>

definition compileStep :: "insts \<Rightarrow> floatbits \<Rightarrow> Compiler \<Rightarrow> Compiler result" where
  "compileStep I F c =
     (if pos c \<ge> length (toks c) then Inl (Panic IndexOutOfRange)
      else if Type (toks c ! pos c) = TWord then compileInst I F c
      else if Type (toks c ! pos c) = TLet then compileLet F c
      else Inl (Err (Unexpected (Where (tok c)) (tok c))))"

function compileLoop :: "insts \<Rightarrow> floatbits \<Rightarrow> Compiler \<Rightarrow> Compiler result" where
  "compileLoop I F c =
     (if Type (tok c) = TEOF then Inr c
      else (case compileStep I F c of
              Inl e \<Rightarrow> Inl e
            | Inr c' \<Rightarrow> compileLoop I F c'))"
  by pat_completeness auto
termination
proof (relation "measure (\<lambda>(I, F, c). length (toks c) - pos c)")
  show "wf (measure (\<lambda>(I, F, c). length (toks c) - pos c))" by simp
next
  fix I :: insts and F :: floatbits and c c' :: Compiler
  assume neof: "Type (tok c) \<noteq> TEOF" and step: "compileStep I F c = Inr c'"
  have nx: "toks d' = toks d \<and> pos d \<le> pos d'" if "nextTok d = Inr d'" for d d'
    using that unfolding nextTok_def by (auto split: if_splits)
  have ld: "toks d' = toks d \<and> pos d \<le> pos d'" if "letData F sz d = Inr d'" for sz d d'
    using that
  proof (induction F sz d rule: letData.induct)
    case (1 F sz c)
    from "1.prems" obtain c1 c2 where i: "letItem F sz c = Inr c1" and n: "nextTok c1 = Inr c2"
      by (subst (asm) letData.simps) (auto split: sum.splits)
    have wm: "toks y = toks x \<and> pos y = pos x" if "writeMemory x w sz = Inr y" for x y w
      using that unfolding writeMemory_def by (auto split: if_splits)
    have ws: "toks y = toks x \<and> pos y = pos x" if "writeString x rs sz = Inr y" for x y rs
      using that
    proof (induction x rs sz arbitrary: y rule: writeString.induct)
      case (1 c sz)
      then show ?case by simp
    next
      case (2 c ch chs sz)
      from "2.prems"(1) obtain x where x: "writeMemory c (of_nat ch) sz = Inr x"
        and r: "writeString (x\<lparr>memorySize := memorySize x + of_nat sz\<rparr>) chs sz = Inr y"
        by (simp split: sum.splits)
      have "toks x = toks c \<and> pos x = pos c"
        using x unfolding writeMemory_def by (auto split: if_splits)
      with "2.IH" [OF x r] show ?case by simp
    qed
    have a: "toks c1 = toks c \<and> pos c1 = pos c"
    proof (cases "Type (tok c) = TString")
      case True
      with i ws show ?thesis by (simp add: letItem_def)
    next
      case False
      with i obtain w d where "writeMemory c w sz = Inr d"
        and "c1 = d\<lparr>memorySize := memorySize d + of_nat sz\<rparr>"
        by (auto simp: letItem_def split: if_splits sum.splits)
      with wm [of c w d] show ?thesis by simp
    qed
    show ?case
    proof (cases "Type (tok c2) \<noteq> TComma")
      case True
      with "1.prems" i n have "d' = c2" by (subst (asm) letData.simps) simp
      with a nx [OF n] show ?thesis by simp
    next
      case False
      with "1.prems" i n obtain c3 where n3: "nextTok c2 = Inr c3" and r: "letData F sz c3 = Inr d'"
        by (subst (asm) letData.simps) (auto split: sum.splits)
      from "1.IH" [OF i n False n3 r] a nx [OF n] nx [OF n3] show ?thesis by simp
    qed
  qed
  have adv: "toks d' = toks c \<and> pos c + 1 = pos d' \<and> pos d' < length (toks c)"
    if "nextTok c = Inr d'" for d'
    using that neof unfolding nextTok_def by (auto split: if_splits)
  have "toks c' = toks c \<and> pos c < pos c' \<and> pos c < length (toks c)"
  proof (cases "Type (toks c ! pos c) = TWord")
    case True
    with step have ci: "compileInst I F c = Inr c'"
      by (simp add: compileStep_def split: if_splits)
    then obtain c1 where n1: "nextTok c = Inr c1"
      by (auto simp: compileInst_def Let_def split: option.splits sum.splits)
    from ci n1 have "(\<exists>op w. c' = writeInst c1 op w) \<or> (\<exists>c2 op w. nextTok c1 = Inr c2 \<and> c' = writeInst c2 op w)"
      by (auto simp: compileInst_def Let_def split: option.splits sum.splits if_splits)
    then show ?thesis
    proof (elim disjE exE conjE)
      fix op w
      assume "c' = writeInst c1 op w"
      with adv [OF n1] show ?thesis by (simp add: writeInst_def)
    next
      fix c2 op w
      assume n2: "nextTok c1 = Inr c2" and "c' = writeInst c2 op w"
      with adv [OF n1] nx [OF n2] show ?thesis by (auto simp: writeInst_def)
    qed
  next
    case False
    with step have cl: "compileLet F c = Inr c'"
      by (simp add: compileStep_def split: if_splits)
    then obtain c1 where n1: "nextTok c = Inr c1"
      by (auto simp: compileLet_def split: sum.splits)
    from cl n1 obtain c3 c4 sz where
      n3: "nextTok (c1\<lparr>vars := (vars c1)(Data (tok c1) \<mapsto> memorySize c1 + 1)\<rparr>) = Inr c3"
      and n4: "nextTok c3 = Inr c4" and l: "letData F sz c4 = Inr c'"
      by (auto simp: compileLet_def Let_def split: sum.splits if_splits option.splits)
    from adv [OF n1] nx [OF n3] nx [OF n4] ld [OF l] show ?thesis by simp
  qed
  then show "((I, F, c'), (I, F, c)) \<in> measure (\<lambda>(I, F, c). length (toks c) - pos c)"
    by auto
qed

declare compileLoop.simps [simp del]

text \<open>\<^verbatim>\<open>compile\<close>: the cursor is reset to the first filtered token.\<close>

definition compile :: "insts \<Rightarrow> floatbits \<Rightarrow> Compiler \<Rightarrow> Compiler result" where
  "compile I F c =
     (case toks c of
        [] \<Rightarrow> Inl (Panic IndexOutOfRange)
      | t # _ \<Rightarrow> compileLoop I F (c\<lparr>pos := 0, tok := t\<rparr>))"

subsection \<open>The preprocessing pass\<close>

text \<open>Modelled from the spec: the lexer is not among the sources. It is the list of the
  tokens that \<^verbatim>\<open>c.l.NextToken()\<close> delivers one after the other; once the list is used up
  the lexer delivers the end marker.\<close>

definition eofToken :: token where
  "eofToken = \<lparr>Type = TEOF, Data = [], Where = \<lparr>Path = [], Row = 0, Col = 0\<rparr>\<rparr>"

text \<open>The loop of \<^verbatim>\<open>preproc\<close> over the tokens of the lexer. The counter \<^verbatim>\<open>c.pos\<close> grows
  at every word that names an instruction; a label is bound to the counter and dropped;
  every other token is appended to \<^verbatim>\<open>c.toks\<close>.\<close>

fun preprocLoop :: "insts \<Rightarrow> token list \<Rightarrow> Compiler \<Rightarrow> Compiler result" where
  "preprocLoop I [] c = Inr (c\<lparr>tok := eofToken\<rparr>)"
| "preprocLoop I (t # ts) c =
     (if Type t = TEOF then Inr (c\<lparr>tok := t\<rparr>)
      else if Type t = TError then Inl (Err (LexError (Where t) (Data t)))
      else if Type t = TLabel then
        (if labels c (Data t) \<noteq> None
         then Inl (Err (RedefinitionOfLabel (Where t) (Data t)))
         else preprocLoop I ts (c\<lparr>tok := t, labels := (labels c)(Data t \<mapsto> of_nat (pos c))\<rparr>))
      else if Type t = TWord \<and> I (Data t) \<noteq> None
      then preprocLoop I ts (c\<lparr>tok := t, pos := pos c + 1, toks := toks c @ [t]\<rparr>)
      else preprocLoop I ts (c\<lparr>tok := t, toks := toks c @ [t]\<rparr>))"

text \<open>\<^verbatim>\<open>preproc\<close>: after the loop the label \<^verbatim>\<open>entry\<close> is required, the end marker is
  appended, and the program size and the entry point are set.\<close>

definition preproc :: "insts \<Rightarrow> token list \<Rightarrow> Compiler \<Rightarrow> Compiler result" where
  "preproc I l c =
     (case preprocLoop I l c of
        Inl e \<Rightarrow> Inl e
      | Inr c1 \<Rightarrow>
          (case labels c1 ''entry'' of
             None \<Rightarrow> Inl (Err EntryNotFound)
           | Some entry \<Rightarrow>
               Inr (c1\<lparr>toks := toks c1 @ [tok c1],
                       programSize := of_nat (pos c1),
                       entryPoint := entry\<rparr>)))"

text \<open>\<^verbatim>\<open>New\<close>: empty tables and buffers, and Go's zero values elsewhere. The zero token is
  overwritten by the first \<^verbatim>\<open>NextToken\<close> before anything reads it.\<close>

definition New :: Compiler where
  "New = \<lparr>toks = [], pos = 0, tok = eofToken\<lparr>Data := []\<rparr>,
          programSize = 0, memorySize = 0, entryPoint = 0,
          labels = Map.empty, vars = Map.empty, memory = [], program = []\<rparr>"

subsection \<open>The container writer\<close>

text \<open>
  The file system that \<^verbatim>\<open>CompileToBinary\<close> acts on: the files by path, each with its
  bytes and its permission bits, and the paths at which \<^verbatim>\<open>os.Create\<close> fails. A new file
  gets the mode \<^verbatim>\<open>0666\<close> (438; the umask is left out), an existing one is truncated and
  keeps its mode. A write to a file that was created succeeds.
\<close>

record osfile =
  content :: "byte list"
  perm :: nat

record filesystem =
  files :: "string \<rightharpoonup> osfile"
  denied :: "string set"

definition os_Create :: "filesystem \<Rightarrow> string \<Rightarrow> filesystem option" where
  "os_Create fs path =
     (if path \<in> denied fs then None
      else Some (fs\<lparr>files := (files fs)(path \<mapsto>
                  \<lparr>content = [],
                   perm = (case files fs path of None \<Rightarrow> 438 | Some f \<Rightarrow> perm f)\<rparr>)\<rparr>))"

definition file_Write :: "filesystem \<Rightarrow> string \<Rightarrow> byte list \<Rightarrow> filesystem" where
  "file_Write fs path bs =
     (case files fs path of
        None \<Rightarrow> fs
      | Some f \<Rightarrow> fs\<lparr>files := (files fs)(path \<mapsto> f\<lparr>content := content f @ bs\<rparr>)\<rparr>)"

definition os_Chmod :: "filesystem \<Rightarrow> string \<Rightarrow> nat \<Rightarrow> filesystem" where
  "os_Chmod fs path m =
     (case files fs path of
        None \<Rightarrow> fs
      | Some f \<Rightarrow> fs\<lparr>files := (files fs)(path \<mapsto> f\<lparr>perm := m\<rparr>)\<rparr>)"

text \<open>The interpreter line \<^verbatim>\<open>"#!/usr/bin/avm\n"\<close>, the magic bytes and the version triple
  (\<^verbatim>\<open>VersionPatch\<close> repeats the expression of \<^verbatim>\<open>VersionMinor\<close>).\<close>

definition shebang :: "byte list" where
  "shebang = map of_char (''#!/usr/bin/avm'' @ [CHR 0x0A])"

definition magic :: "byte list" where
  "magic = map of_char ''AVM''"

definition version :: "byte list" where
  "version = [1, 7, 7]"

text \<open>\<^verbatim>\<open>CompileToBinary\<close>: both passes, then the file. The result is the returned error
  (\<open>None\<close> for \<^verbatim>\<open>nil\<close>) and the file system afterwards; \<^verbatim>\<open>0777\<close> is 511.\<close>

definition CompileToBinary ::
  "insts \<Rightarrow> floatbits \<Rightarrow> token list \<Rightarrow> Compiler \<Rightarrow> filesystem \<Rightarrow> string \<Rightarrow> bool
     \<Rightarrow> failure option \<times> filesystem" where
  "CompileToBinary I F l c fs path executable =
     (case preproc I l c of
        Inl e \<Rightarrow> (Some e, fs)
      | Inr c1 \<Rightarrow>
          (case compile I F c1 of
             Inl e \<Rightarrow> (Some e, fs)
           | Inr c2 \<Rightarrow>
               (case os_Create fs path of
                  None \<Rightarrow> (Some (Err (CreateFailed path)), fs)
                | Some fs1 \<Rightarrow>
                    (let fs2 = (if executable
                                then os_Chmod (file_Write fs1 path shebang) path 511
                                else fs1);
                         fs3 = file_Write fs2 path magic;
                         fs4 = file_Write fs3 path version;
                         fs5 = file_Write fs4 path (be_bytes 8 (programSize c2));
                         fs6 = file_Write fs5 path (be_bytes 8 (memorySize c2));
                         fs7 = file_Write fs6 path (be_bytes 8 (entryPoint c2));
                         fs8 = file_Write fs7 path (memory c2);
                         fs9 = file_Write fs8 path (program c2)
                     in (None, fs9)))))"

subsection \<open>Data for the examples\<close>

text \<open>A token of the given kind and payload, at the origin of an unnamed file.\<close>

definition tk :: "token_type \<Rightarrow> string \<Rightarrow> token" where
  "tk ty d = \<lparr>Type = ty, Data = d, Where = \<lparr>Path = [], Row = 0, Col = 0\<rparr>\<rparr>"

text \<open>A table with one instruction without an argument and one with an argument. The
  opcodes of the real table are not among the sources; no theorem depends on these two.\<close>

definition demoInsts :: insts where
  "demoInsts = [''halt'' \<mapsto> \<lparr>Op = 21, HasArg = False\<rparr>, ''jmp'' \<mapsto> \<lparr>Op = 14, HasArg = True\<rparr>]"

text \<open>A float conversion that rejects every payload; the examples have no float token.\<close>

definition noFloat :: floatbits where
  "noFloat = (\<lambda>s. None)"

definition emptyFs :: filesystem where
  "emptyFs = \<lparr>files = Map.empty, denied = {}\<rparr>"

subsection \<open>Notions used by the properties\<close>

text \<open>The states at the head of the loop of \<^verbatim>\<open>compile\<close> that a run from \<open>c0\<close> passes
  through.\<close>

inductive compileReach :: "insts \<Rightarrow> floatbits \<Rightarrow> Compiler \<Rightarrow> Compiler \<Rightarrow> bool"
  for I :: insts and F :: floatbits and c0 :: Compiler where
  start: "compileReach I F c0 c0"
| step: "compileReach I F c0 c \<Longrightarrow> Type (tok c) \<noteq> TEOF \<Longrightarrow> compileStep I F c = Inr c'
         \<Longrightarrow> compileReach I F c0 c'"

text \<open>The state in which the loop of \<^verbatim>\<open>compile\<close> starts.\<close>

definition compileStart :: "Compiler \<Rightarrow> Compiler" where
  "compileStart c = c\<lparr>pos := 0, tok := hd (toks c)\<rparr>"

text \<open>The cursor is coherent when the current token is the one at the cursor.\<close>

definition coherent :: "Compiler \<Rightarrow> bool" where
  "coherent c = (pos c < length (toks c) \<and> tok c = toks c ! pos c)"

text \<open>A \<^verbatim>\<open>let\<close> declaration of the name \<open>n\<close> starts at index \<open>j\<close> of the filtered
  tokens.\<close>

definition letAt :: "token list \<Rightarrow> nat \<Rightarrow> string \<Rightarrow> bool" where
  "letAt ts j n = (Type (ts ! j) = TLet \<and> Data (ts ! Suc j) = n)"

text \<open>The number of words that name an instruction, which is what the counter of
  \<^verbatim>\<open>preproc\<close> counts.\<close>

definition instCount :: "insts \<Rightarrow> token list \<Rightarrow> nat" where
  "instCount I ts = length (filter (\<lambda>t. Type t = TWord \<and> I (Data t) \<noteq> None) ts)"

text \<open>The names of the label declarations of a token stream, in order.\<close>

definition labelNames :: "token list \<Rightarrow> string list" where
  "labelNames l = map Data (filter (\<lambda>t. Type t = TLabel) l)"

text \<open>The program \<^verbatim>\<open>let x sz8 1, 2, 3\<close> followed by \<^verbatim>\<open>entry: halt\<close>.\<close>

definition letProgram :: "token list" where
  "letProgram =
     [tk TLet ''let'', tk TWord ''x'', tk TSize8 ''sz8'', tk TDec ''1'', tk TComma '','',
      tk TDec ''2'', tk TComma '','', tk TDec ''3'', tk TLabel ''entry'', tk TWord ''halt'']"

text \<open>The state in which the compile pass of \<open>letProgram\<close> starts.\<close>

definition letState :: Compiler where
  "letState =
     New\<lparr>toks := [tk TLet ''let'', tk TWord ''x'', tk TSize8 ''sz8'', tk TDec ''1'',
                   tk TComma '','', tk TDec ''2'', tk TComma '','', tk TDec ''3'',
                   tk TWord ''halt'', eofToken],
          pos := 0, tok := tk TLet ''let'', programSize := 1, labels := [''entry'' \<mapsto> 0]\<rparr>"

text \<open>The program \<^verbatim>\<open>entry: jmp @x\<close> followed by \<^verbatim>\<open>let x sz8 1\<close>: the variable is
  declared after the reference.\<close>

definition varFwdProgram :: "token list" where
  "varFwdProgram =
     [tk TLabel ''entry'', tk TWord ''jmp'', tk TAddr ''x'',
      tk TLet ''let'', tk TWord ''x'', tk TSize8 ''sz8'', tk TDec ''1'']"

definition varFwdState :: Compiler where
  "varFwdState =
     New\<lparr>toks := [tk TWord ''jmp'', tk TAddr ''x'', tk TLet ''let'', tk TWord ''x'',
                   tk TSize8 ''sz8'', tk TDec ''1'', eofToken],
          pos := 1, tok := eofToken, programSize := 1, labels := [''entry'' \<mapsto> 0]\<rparr>"

text \<open>The program \<^verbatim>\<open>entry: jmp @L\<close> followed by \<^verbatim>\<open>L: halt\<close>: the label is declared after
  the reference.\<close>

definition labFwdProgram :: "token list" where
  "labFwdProgram =
     [tk TLabel ''entry'', tk TWord ''jmp'', tk TAddr ''L'', tk TLabel ''L'', tk TWord ''halt'']"

definition labFwdState :: Compiler where
  "labFwdState =
     New\<lparr>toks := [tk TWord ''jmp'', tk TAddr ''L'', tk TWord ''halt'', eofToken],
          pos := 2, tok := eofToken, programSize := 2,
          labels := [''entry'' \<mapsto> 0, ''L'' \<mapsto> 1]\<rparr>"

text \<open>The program \<^verbatim>\<open>entry: jmp @L\<close>, \<^verbatim>\<open>halt\<close>, \<^verbatim>\<open>L: halt\<close>: the label stands before the
  third instruction.\<close>

definition jumpProgram :: "token list" where
  "jumpProgram =
     [tk TLabel ''entry'', tk TWord ''jmp'', tk TAddr ''L'', tk TWord ''halt'',
      tk TLabel ''L'', tk TWord ''halt'']"

definition jumpState :: Compiler where
  "jumpState =
     New\<lparr>toks := [tk TWord ''jmp'', tk TAddr ''L'', tk TWord ''halt'', tk TWord ''halt'',
                   eofToken],
          pos := 3, tok := eofToken, programSize := 3,
          labels := [''entry'' \<mapsto> 0, ''L'' \<mapsto> 2]\<rparr>"

text \<open>The program \<^verbatim>\<open>let halt sz8 1\<close>, \<^verbatim>\<open>entry: jmp @L\<close>, \<^verbatim>\<open>L: halt\<close>, whose variable
  bears the name of an instruction, and the state in which its compile pass starts.\<close>

definition namedProgram :: "token list" where
  "namedProgram =
     [tk TLet ''let'', tk TWord ''halt'', tk TSize8 ''sz8'', tk TDec ''1'',
      tk TLabel ''entry'', tk TWord ''jmp'', tk TAddr ''L'', tk TLabel ''L'', tk TWord ''halt'']"

definition namedState :: Compiler where
  "namedState =
     New\<lparr>toks := [tk TLet ''let'', tk TWord ''halt'', tk TSize8 ''sz8'', tk TDec ''1'',
                   tk TWord ''jmp'', tk TAddr ''L'', tk TWord ''halt'', eofToken],
          pos := 3, tok := eofToken, programSize := 3, entryPoint := 1,
          labels := [''entry'' \<mapsto> 1, ''L'' \<mapsto> 2]\<rparr>"

text \<open>A word that names an instruction.\<close>

definition isInstWord :: "insts \<Rightarrow> token \<Rightarrow> bool" where
  "isInstWord I t = (Type t = TWord \<and> I (Data t) \<noteq> None)"

text \<open>Some \<^verbatim>\<open>let\<close> of the filtered tokens declares a variable whose name is the name of
  an instruction.\<close>

definition nameClash :: "insts \<Rightarrow> token list \<Rightarrow> bool" where
  "nameClash I ts = (\<exists>j. Suc j < length ts \<and> Type (ts ! j) = TLet \<and> isInstWord I (ts ! Suc j))"

section \<open>Properties\<close>

subsection \<open>Big-endian words\<close>

lemma be_bytes_8:
  "be_bytes 8 w =
     [ucast (drop_bit 56 w), ucast (drop_bit 48 w), ucast (drop_bit 40 w), ucast (drop_bit 32 w),
      ucast (drop_bit 24 w), ucast (drop_bit 16 w), ucast (drop_bit 8 w), ucast w]"
  by (simp add: be_bytes_def upt_rec numeral_eq_Suc)

lemma be_bytes_8_0: "be_bytes 8 0 = [0, 0, 0, 0, 0, 0, 0, 0]"
  by (simp add: be_bytes_8)

lemma be_bytes_8_255: "be_bytes 8 255 = [0, 0, 0, 0, 0, 0, 0, 255]"
  by (simp add: be_bytes_8)

lemma length_be_bytes: "length (be_bytes n w) = n"
  by (simp add: be_bytes_def)

subsection \<open>What each operation changes\<close>

lemma nextTok_cases:
  assumes "nextTok c = Inr c'"
  shows "(Type (tok c) = TEOF \<and> c' = c)
       \<or> (Type (tok c) \<noteq> TEOF \<and> pos c + 1 < length (toks c)
          \<and> c' = c\<lparr>pos := pos c + 1, tok := toks c ! (pos c + 1)\<rparr>)"
  using assms unfolding nextTok_def by (auto split: if_splits)

lemma nextTok_advance:
  assumes "nextTok c = Inr c'" and "Type (tok c) \<noteq> TEOF"
  shows "pos c + 1 < length (toks c)"
    and "c' = c\<lparr>pos := pos c + 1, tok := toks c ! (pos c + 1)\<rparr>"
  using nextTok_cases [OF assms(1)] assms(2) by auto

lemma nextTok_frame:
  assumes "nextTok c = Inr c'"
  shows "\<exists>p t. c' = c\<lparr>pos := p, tok := t\<rparr> \<and> pos c \<le> p"
proof -
  from nextTok_cases [OF assms] show ?thesis
  proof (elim disjE conjE)
    assume "c' = c"
    then have "c' = c\<lparr>pos := pos c, tok := tok c\<rparr> \<and> pos c \<le> pos c" by simp
    then show ?thesis by blast
  next
    assume "c' = c\<lparr>pos := pos c + 1, tok := toks c ! (pos c + 1)\<rparr>"
    then have "c' = c\<lparr>pos := pos c + 1, tok := toks c ! (pos c + 1)\<rparr> \<and> pos c \<le> pos c + 1"
      by simp
    then show ?thesis by blast
  qed
qed

text \<open>The cursor is coherent when the current token is the one at the cursor.\<close>

lemma nextTok_coherent:
  assumes "nextTok c = Inr c'" and "pos c < length (toks c)" and "tok c = toks c ! pos c"
  shows "pos c' < length (toks c') \<and> tok c' = toks c' ! pos c'"
  using nextTok_cases [OF assms(1)] assms(2,3) by auto

lemma writeMemory_Inr:
  assumes "writeMemory c d sz = Inr c'"
  shows "c' = c\<lparr>memory := memory c @ be_bytes sz d\<rparr>"
  using assms unfolding writeMemory_def by (simp split: if_splits)

lemma writeString_frame:
  assumes "writeString c rs sz = Inr c'"
  shows "\<exists>bs. c' = c\<lparr>memory := memory c @ bs,
                      memorySize := memorySize c + of_nat (length bs)\<rparr>"
  using assms
proof (induction c rs sz arbitrary: c' rule: writeString.induct)
  case (1 c sz)
  then have "c' = c\<lparr>memory := memory c @ [], memorySize := memorySize c + of_nat (length ([] :: byte list))\<rparr>"
    by simp
  then show ?case by blast
next
  case (2 c ch chs sz)
  from "2.prems" obtain x where x: "writeMemory c (of_nat ch) sz = Inr x"
    and r: "writeString (x\<lparr>memorySize := memorySize x + of_nat sz\<rparr>) chs sz = Inr c'"
    by (simp split: sum.splits)
  from "2.IH" [OF x r] obtain bs where
    bs: "c' = (x\<lparr>memorySize := memorySize x + of_nat sz\<rparr>)
             \<lparr>memory := memory (x\<lparr>memorySize := memorySize x + of_nat sz\<rparr>) @ bs,
              memorySize := memorySize (x\<lparr>memorySize := memorySize x + of_nat sz\<rparr>)
                            + of_nat (length bs)\<rparr>"
    by blast
  have "c' = c\<lparr>memory := memory c @ (be_bytes sz (of_nat ch) @ bs),
               memorySize := memorySize c + of_nat (length (be_bytes sz (of_nat ch) @ bs))\<rparr>"
    unfolding bs writeMemory_Inr [OF x] by (simp add: length_be_bytes)
  then show ?case by blast
qed

lemma letItem_frame:
  assumes "letItem F sz c = Inr c'"
  shows "\<exists>bs. c' = c\<lparr>memory := memory c @ bs,
                      memorySize := memorySize c + of_nat (length bs)\<rparr>"
proof (cases "Type (tok c) = TString")
  case True
  with assms have "writeString c (runes (Data (tok c))) sz = Inr c'"
    by (simp add: letItem_def)
  then show ?thesis by (rule writeString_frame)
next
  case False
  with assms obtain d x where x: "writeMemory c d sz = Inr x"
    and c': "c' = x\<lparr>memorySize := memorySize x + of_nat sz\<rparr>"
    by (auto simp: letItem_def split: if_splits sum.splits)
  have "c' = c\<lparr>memory := memory c @ be_bytes sz d,
               memorySize := memorySize c + of_nat (length (be_bytes sz d))\<rparr>"
    unfolding c' writeMemory_Inr [OF x] by (simp add: length_be_bytes)
  then show ?thesis by blast
qed

lemma letData_frame:
  assumes "letData F sz c = Inr c'"
  shows "\<exists>p t bs. c' = c\<lparr>pos := p, tok := t, memory := memory c @ bs,
                          memorySize := memorySize c + of_nat (length bs)\<rparr> \<and> pos c \<le> p"
  using assms
proof (induction F sz c rule: letData.induct)
  case (1 F sz c)
  from "1.prems" obtain c1 c2 where i: "letItem F sz c = Inr c1" and n: "nextTok c1 = Inr c2"
    by (subst (asm) letData.simps) (auto split: sum.splits)
  from letItem_frame [OF i] obtain bs where
    c1: "c1 = c\<lparr>memory := memory c @ bs, memorySize := memorySize c + of_nat (length bs)\<rparr>"
    by blast
  from nextTok_frame [OF n] obtain p t where c2: "c2 = c1\<lparr>pos := p, tok := t\<rparr>" and p: "pos c1 \<le> p"
    by blast
  show ?case
  proof (cases "Type (tok c2) \<noteq> TComma")
    case True
    with "1.prems" i n have "c' = c2" by (subst (asm) letData.simps) simp
    with c1 c2 p have "c' = c\<lparr>pos := p, tok := t, memory := memory c @ bs,
        memorySize := memorySize c + of_nat (length bs)\<rparr> \<and> pos c \<le> p"
      by simp
    then show ?thesis by blast
  next
    case False
    with "1.prems" i n obtain c3 where n3: "nextTok c2 = Inr c3" and r: "letData F sz c3 = Inr c'"
      by (subst (asm) letData.simps) (auto split: sum.splits)
    from nextTok_frame [OF n3] obtain p3 t3 where c3: "c3 = c2\<lparr>pos := p3, tok := t3\<rparr>"
      and p3: "pos c2 \<le> p3"
      by blast
    from "1.IH" [OF i n False n3 r] obtain p' t' bs' where
      c': "c' = c3\<lparr>pos := p', tok := t', memory := memory c3 @ bs',
                   memorySize := memorySize c3 + of_nat (length bs')\<rparr>" and p': "pos c3 \<le> p'"
      by blast
    have "c' = c\<lparr>pos := p', tok := t', memory := memory c @ (bs @ bs'),
                 memorySize := memorySize c + of_nat (length (bs @ bs'))\<rparr> \<and> pos c \<le> p'"
      using p p3 p' unfolding c' c3 c2 c1 by simp
    then show ?thesis by blast
  qed
qed

lemma letData_coherent:
  assumes "letData F sz c = Inr c'" and "coherent c"
  shows "coherent c'"
  using assms
proof (induction F sz c rule: letData.induct)
  case (1 F sz c)
  from "1.prems"(1) obtain c1 c2 where i: "letItem F sz c = Inr c1" and n: "nextTok c1 = Inr c2"
    by (subst (asm) letData.simps) (auto split: sum.splits)
  from letItem_frame [OF i] "1.prems"(2) have "coherent c1"
    by (auto simp: coherent_def)
  with nextTok_coherent [OF n] have c2: "coherent c2"
    by (simp add: coherent_def)
  show ?case
  proof (cases "Type (tok c2) \<noteq> TComma")
    case True
    with "1.prems"(1) i n have "c' = c2" by (subst (asm) letData.simps) simp
    with c2 show ?thesis by simp
  next
    case False
    with "1.prems"(1) i n obtain c3 where n3: "nextTok c2 = Inr c3" and r: "letData F sz c3 = Inr c'"
      by (subst (asm) letData.simps) (auto split: sum.splits)
    from nextTok_coherent [OF n3] c2 have "coherent c3" by (simp add: coherent_def)
    with "1.IH" [OF i n False n3 r] show ?thesis by simp
  qed
qed

lemma compileLet_frame:
  assumes "compileLet F c = Inr c'"
  defines "n \<equiv> Data (toks c ! (pos c + 1))"
  shows "Type (tok c) \<noteq> TEOF \<and> pos c + 1 < length (toks c)
       \<and> Type (toks c ! (pos c + 1)) = TWord \<and> vars c n = None \<and> labels c n = None
       \<and> (\<exists>p t bs. c' = c\<lparr>pos := p, tok := t, vars := (vars c)(n \<mapsto> memorySize c + 1),
                           memory := memory c @ bs,
                           memorySize := memorySize c + of_nat (length bs)\<rparr>
                    \<and> pos c + 1 \<le> p)"
proof -
  from assms(1) obtain c1 where n1: "nextTok c = Inr c1"
    by (auto simp: compileLet_def split: sum.splits)
  from assms(1) n1 have w: "Type (tok c1) = TWord"
    by (auto simp: compileLet_def split: if_splits)
  have neof: "Type (tok c) \<noteq> TEOF"
  proof
    assume "Type (tok c) = TEOF"
    with nextTok_cases [OF n1] have "c1 = c" by auto
    with w \<open>Type (tok c) = TEOF\<close> show False by simp
  qed
  note a = nextTok_advance [OF n1 neof]
  have nm: "Data (tok c1) = n" and tw: "Type (toks c ! (pos c + 1)) = TWord"
    using a(2) w by (simp_all add: n_def)
  from assms(1) n1 w nm have fresh: "vars c1 n = None \<and> labels c1 n = None"
    by (auto simp: compileLet_def Let_def split: if_splits)
  define c2 where "c2 = c1\<lparr>vars := (vars c1)(n \<mapsto> memorySize c1 + 1)\<rparr>"
  from assms(1) n1 w nm fresh obtain c3 sz c4 where n3: "nextTok c2 = Inr c3"
    and n4: "nextTok c3 = Inr c4" and ld: "letData F sz c4 = Inr c'"
    by (auto simp: compileLet_def Let_def c2_def split: if_splits sum.splits option.splits)
  from nextTok_frame [OF n3] obtain p3 t3 where c3: "c3 = c2\<lparr>pos := p3, tok := t3\<rparr>" and p3: "pos c2 \<le> p3"
    by blast
  from nextTok_frame [OF n4] obtain p4 t4 where c4: "c4 = c3\<lparr>pos := p4, tok := t4\<rparr>" and p4: "pos c3 \<le> p4"
    by blast
  from letData_frame [OF ld] obtain p t bs where
    c': "c' = c4\<lparr>pos := p, tok := t, memory := memory c4 @ bs,
                 memorySize := memorySize c4 + of_nat (length bs)\<rparr>" and p: "pos c4 \<le> p"
    by blast
  have "c' = c\<lparr>pos := p, tok := t, vars := (vars c)(n \<mapsto> memorySize c + 1),
               memory := memory c @ bs, memorySize := memorySize c + of_nat (length bs)\<rparr>
        \<and> pos c + 1 \<le> p"
    using p p3 p4 unfolding c' c4 c3 c2_def a(2) by simp
  then have "\<exists>p t bs. c' = c\<lparr>pos := p, tok := t, vars := (vars c)(n \<mapsto> memorySize c + 1),
               memory := memory c @ bs, memorySize := memorySize c + of_nat (length bs)\<rparr>
        \<and> pos c + 1 \<le> p"
    by blast
  with neof a(1) tw fresh a(2) show ?thesis by simp
qed

lemma compileLet_coherent:
  assumes "compileLet F c = Inr c'" and "coherent c"
  shows "coherent c'"
proof -
  from assms(1) obtain c1 where n1: "nextTok c = Inr c1"
    by (auto simp: compileLet_def split: sum.splits)
  from nextTok_coherent [OF n1] assms(2) have k1: "coherent c1" by (simp add: coherent_def)
  from assms(1) n1 obtain c3 sz c4 where
    n3: "nextTok (c1\<lparr>vars := (vars c1)(Data (tok c1) \<mapsto> memorySize c1 + 1)\<rparr>) = Inr c3"
    and n4: "nextTok c3 = Inr c4" and ld: "letData F sz c4 = Inr c'"
    by (auto simp: compileLet_def Let_def split: if_splits sum.splits option.splits)
  from nextTok_coherent [OF n3] k1 have "coherent c3" by (simp add: coherent_def)
  with nextTok_coherent [OF n4] have "coherent c4" by (simp add: coherent_def)
  with letData_coherent [OF ld] show ?thesis by simp
qed

text \<open>The outcomes of \<^verbatim>\<open>compileInst\<close> that are not a failure.\<close>

lemma compileInst_Inr:
  assumes "compileInst I F c = Inr c'"
  obtains i c1 where "I (Data (tok c)) = Some i" and "nextTok c = Inr c1"
    and "\<not> IsArg (tok c1)" and "\<not> HasArg i" and "c' = writeInst c1 (Op i) 0"
  | i c1 d c2 where "I (Data (tok c)) = Some i" and "nextTok c = Inr c1"
    and "IsArg (tok c1)" and "HasArg i" and "argToWord F c1 (tok c1) = Inr d"
    and "nextTok c1 = Inr c2" and "c' = writeInst c2 (Op i) d"
  using assms unfolding compileInst_def Let_def
  by (auto split: option.splits sum.splits if_splits)

lemma compileInst_frame:
  assumes "compileInst I F c = Inr c'"
  shows "\<exists>p t i d. c' = c\<lparr>pos := p, tok := t, program := program c @ [Op i] @ be_bytes 8 d\<rparr>
           \<and> pos c \<le> p \<and> I (Data (tok c)) = Some i"
  using assms
proof (cases rule: compileInst_Inr)
  case (1 i c1)
  from nextTok_frame [OF 1(2)] obtain p t where "c1 = c\<lparr>pos := p, tok := t\<rparr>" and "pos c \<le> p"
    by blast
  with 1 have "c' = c\<lparr>pos := p, tok := t, program := program c @ [Op i] @ be_bytes 8 0\<rparr>
      \<and> pos c \<le> p \<and> I (Data (tok c)) = Some i"
    by (simp add: writeInst_def)
  then show ?thesis by blast
next
  case (2 i c1 d c2)
  from nextTok_frame [OF 2(2)] obtain p t where c1: "c1 = c\<lparr>pos := p, tok := t\<rparr>" and p: "pos c \<le> p"
    by blast
  from nextTok_frame [OF 2(6)] obtain p2 t2 where c2: "c2 = c1\<lparr>pos := p2, tok := t2\<rparr>" and p2: "pos c1 \<le> p2"
    by blast
  from 2 c1 c2 p p2 have "c' = c\<lparr>pos := p2, tok := t2, program := program c @ [Op i] @ be_bytes 8 d\<rparr>
      \<and> pos c \<le> p2 \<and> I (Data (tok c)) = Some i"
    by (simp add: writeInst_def)
  then show ?thesis by blast
qed

lemma compileInst_coherent:
  assumes "compileInst I F c = Inr c'" and "coherent c"
  shows "coherent c'"
  using assms(1)
proof (cases rule: compileInst_Inr)
  case (1 i c1)
  from nextTok_coherent [OF 1(2)] assms(2) 1(5) show ?thesis
    by (simp add: coherent_def writeInst_def)
next
  case (2 i c1 d c2)
  from nextTok_coherent [OF 2(2)] assms(2) have "coherent c1" by (simp add: coherent_def)
  with nextTok_coherent [OF 2(6)] 2(7) show ?thesis
    by (simp add: coherent_def writeInst_def)
qed

subsection \<open>Invariants of the compile pass\<close>

lemma compileReach_loop:
  assumes "compileReach I F c0 c"
  shows "compileLoop I F c0 = compileLoop I F c"
  using assms
proof (induction rule: compileReach.induct)
  case start
  show ?case by simp
next
  case (step c c')
  have "compileLoop I F c = compileLoop I F c'"
    using step.hyps(2,3) by (subst compileLoop.simps) simp
  with step.IH show ?case by simp
qed

lemma compileStep_invariant:
  assumes st: "compileStep I F c = Inr c'" and neof: "Type (tok c) \<noteq> TEOF"
    and co: "coherent c"
    and vd: "\<forall>n. vars c n \<noteq> None \<longrightarrow> (\<exists>j<pos c. letAt (toks c) j n)"
  shows "toks c' = toks c \<and> labels c' = labels c \<and> coherent c' \<and> pos c \<le> pos c'
       \<and> (\<forall>n. vars c' n \<noteq> None \<longrightarrow> (\<exists>j<pos c'. letAt (toks c') j n))"
proof (cases "Type (toks c ! pos c) = TWord")
  case True
  with st have ci: "compileInst I F c = Inr c'"
    by (simp add: compileStep_def split: if_splits)
  from compileInst_frame [OF ci] obtain p t i d where
    c': "c' = c\<lparr>pos := p, tok := t, program := program c @ [Op i] @ be_bytes 8 d\<rparr>"
    and p: "pos c \<le> p" and "I (Data (tok c)) = Some i"
    by blast
  have "\<exists>j<p. letAt (toks c) j n" if "vars c n \<noteq> None" for n
    using vd that p by (meson less_le_trans)
  with compileInst_coherent [OF ci co] p show ?thesis
    unfolding c' by simp
next
  case False
  with st have lt: "Type (toks c ! pos c) = TLet" and cl: "compileLet F c = Inr c'"
    by (simp_all add: compileStep_def split: if_splits)
  from compileLet_frame [OF cl] obtain p t bs where
    c': "c' = c\<lparr>pos := p, tok := t,
                 vars := (vars c)(Data (toks c ! (pos c + 1)) \<mapsto> memorySize c + 1),
                 memory := memory c @ bs, memorySize := memorySize c + of_nat (length bs)\<rparr>"
    and p: "pos c + 1 \<le> p"
    by blast
  have "\<exists>j<p. letAt (toks c) j n"
    if "((vars c)(Data (toks c ! (pos c + 1)) \<mapsto> memorySize c + 1)) n \<noteq> None" for n
  proof (cases "n = Data (toks c ! (pos c + 1))")
    case True
    with lt have "letAt (toks c) (pos c) n" by (simp add: letAt_def)
    with p show ?thesis by (intro exI [of _ "pos c"]) simp
  next
    case False
    with that have "vars c n \<noteq> None" by simp
    with vd obtain j where "j < pos c" and "letAt (toks c) j n" by blast
    with p show ?thesis by (intro exI [of _ j]) simp
  qed
  with compileLet_coherent [OF cl co] p show ?thesis
    unfolding c' by simp
qed

lemma compileReach_invariant:
  assumes "compileReach I F c0 c" and "coherent c0"
    and "\<forall>n. vars c0 n \<noteq> None \<longrightarrow> (\<exists>j<pos c0. letAt (toks c0) j n)"
  shows "toks c = toks c0 \<and> labels c = labels c0 \<and> coherent c \<and> pos c0 \<le> pos c
       \<and> (\<forall>n. vars c n \<noteq> None \<longrightarrow> (\<exists>j<pos c. letAt (toks c) j n))"
  using assms
proof (induction rule: compileReach.induct)
  case start
  then show ?case by simp
next
  case (step c c')
  from step.IH [OF step.prems] have inv: "toks c = toks c0" "labels c = labels c0" "coherent c"
    "pos c0 \<le> pos c" "\<forall>n. vars c n \<noteq> None \<longrightarrow> (\<exists>j<pos c. letAt (toks c) j n)"
    by blast+
  from compileStep_invariant [OF step.hyps(3,2) inv(3,5)] have s: "toks c' = toks c"
    "labels c' = labels c" "coherent c'" "pos c \<le> pos c'"
    "\<forall>n. vars c' n \<noteq> None \<longrightarrow> (\<exists>j<pos c'. letAt (toks c') j n)"
    by blast+
  from s inv(1,2,4) show ?case
    by simp
qed

subsection \<open>The preprocessing pass\<close>

lemma preprocLoop_frame:
  assumes "preprocLoop I l c = Inr c'"
  shows "\<exists>ts p t lb. c' = c\<lparr>toks := toks c @ ts, pos := p, tok := t, labels := lb\<rparr>
           \<and> Type t = TEOF"
  using assms
proof (induction l arbitrary: c)
  case Nil
  then have c': "c' = c\<lparr>tok := eofToken\<rparr>" by simp
  have "c' = c\<lparr>toks := toks c @ [], pos := pos c, tok := eofToken, labels := labels c\<rparr>
      \<and> Type eofToken = TEOF"
    unfolding c' by (simp add: eofToken_def)
  then show ?case by blast
next
  case (Cons a l)
  show ?case
  proof (cases "Type a = TEOF")
    case True
    with Cons.prems have c': "c' = c\<lparr>tok := a\<rparr>" by simp
    have "c' = c\<lparr>toks := toks c @ [], pos := pos c, tok := a, labels := labels c\<rparr>
        \<and> Type a = TEOF"
      unfolding c' using True by simp
    then show ?thesis by blast
  next
    case False
    with Cons.prems obtain d ts0 where d: "preprocLoop I l d = Inr c'"
      and dd: "\<exists>p t lb. d = c\<lparr>toks := toks c @ ts0, pos := p, tok := t, labels := lb\<rparr>"
    proof -
      assume r: "\<And>d ts0. preprocLoop I l d = Inr c' \<Longrightarrow>
          \<exists>p t lb. d = c\<lparr>toks := toks c @ ts0, pos := p, tok := t, labels := lb\<rparr> \<Longrightarrow> thesis"
      consider (lab) "Type a = TLabel" | (ins) "Type a \<noteq> TLabel" "Type a = TWord \<and> I (Data a) \<noteq> None"
        | (oth) "Type a \<noteq> TLabel" "\<not> (Type a = TWord \<and> I (Data a) \<noteq> None)"
        by blast
      then show thesis
      proof cases
        case lab
        with Cons.prems False
        have 1: "preprocLoop I l (c\<lparr>tok := a, labels := (labels c)(Data a \<mapsto> of_nat (pos c))\<rparr>) = Inr c'"
          by (simp split: if_splits)
        have "c\<lparr>tok := a, labels := (labels c)(Data a \<mapsto> of_nat (pos c))\<rparr>
            = c\<lparr>toks := toks c @ [], pos := pos c, tok := a,
                labels := (labels c)(Data a \<mapsto> of_nat (pos c))\<rparr>"
          by simp
        with 1 r show ?thesis by blast
      next
        case ins
        with Cons.prems False
        have 1: "preprocLoop I l (c\<lparr>tok := a, pos := pos c + 1, toks := toks c @ [a]\<rparr>) = Inr c'"
          by (simp split: if_splits)
        have "c\<lparr>tok := a, pos := pos c + 1, toks := toks c @ [a]\<rparr>
            = c\<lparr>toks := toks c @ [a], pos := pos c + 1, tok := a, labels := labels c\<rparr>"
          by simp
        with 1 r show ?thesis by blast
      next
        case oth
        with Cons.prems False
        have 1: "preprocLoop I l (c\<lparr>tok := a, toks := toks c @ [a]\<rparr>) = Inr c'"
          by (auto split: if_splits)
        have "c\<lparr>tok := a, toks := toks c @ [a]\<rparr>
            = c\<lparr>toks := toks c @ [a], pos := pos c, tok := a, labels := labels c\<rparr>"
          by simp
        with 1 r show ?thesis by blast
      qed
    qed
    from dd obtain p0 t0 lb0 where d0: "d = c\<lparr>toks := toks c @ ts0, pos := p0, tok := t0, labels := lb0\<rparr>"
      by blast
    from Cons.IH [OF d] obtain ts p t lb where
      c': "c' = d\<lparr>toks := toks d @ ts, pos := p, tok := t, labels := lb\<rparr>" and t: "Type t = TEOF"
      by blast
    have "c' = c\<lparr>toks := toks c @ (ts0 @ ts), pos := p, tok := t, labels := lb\<rparr> \<and> Type t = TEOF"
      unfolding c' d0 using t by simp
    then show ?thesis by blast
  qed
qed

lemma preproc_frame:
  assumes "preproc I l c = Inr c1"
  shows "\<exists>ts p t lb e. c1 = c\<lparr>toks := toks c @ ts @ [t], pos := p, tok := t,
                              programSize := of_nat p, entryPoint := e, labels := lb\<rparr>
           \<and> Type t = TEOF \<and> lb ''entry'' = Some e"
proof -
  from assms obtain c' e where l: "preprocLoop I l c = Inr c'" and e: "labels c' ''entry'' = Some e"
    and c1: "c1 = c'\<lparr>toks := toks c' @ [tok c'], programSize := of_nat (pos c'), entryPoint := e\<rparr>"
    by (auto simp: preproc_def split: sum.splits option.splits)
  from preprocLoop_frame [OF l] obtain ts p t lb where
    c': "c' = c\<lparr>toks := toks c @ ts, pos := p, tok := t, labels := lb\<rparr>" and t: "Type t = TEOF"
    by blast
  have "c1 = c\<lparr>toks := toks c @ ts @ [t], pos := p, tok := t,
                programSize := of_nat p, entryPoint := e, labels := lb\<rparr>
        \<and> Type t = TEOF \<and> lb ''entry'' = Some e"
    using t e unfolding c1 c' by simp
  then show ?thesis by blast
qed

lemma preprocLoop_keeps_label:
  assumes "preprocLoop I l c = Inr c'" and "labels c n = Some v"
  shows "labels c' n = Some v"
  using assms
proof (induction l arbitrary: c)
  case Nil
  then show ?case by auto
next
  case (Cons a l)
  show ?case
  proof (cases "Type a = TEOF")
    case True
    with Cons.prems show ?thesis by auto
  next
    case False
    note neof = this
    show ?thesis
    proof (cases "Type a = TLabel")
      case True
      with Cons.prems neof have nd: "labels c (Data a) = None"
        and 1: "preprocLoop I l (c\<lparr>tok := a, labels := (labels c)(Data a \<mapsto> of_nat (pos c))\<rparr>) = Inr c'"
        by (auto split: if_splits)
      from nd Cons.prems(2) have "Data a \<noteq> n" by auto
      with Cons.prems(2) have "labels (c\<lparr>tok := a, labels := (labels c)(Data a \<mapsto> of_nat (pos c))\<rparr>) n = Some v"
        by simp
      from Cons.IH [OF 1 this] show ?thesis .
    next
      case False
      show ?thesis
      proof (cases "Type a = TWord \<and> I (Data a) \<noteq> None")
        case True
        with Cons.prems neof False
        have 1: "preprocLoop I l (c\<lparr>tok := a, pos := pos c + 1, toks := toks c @ [a]\<rparr>) = Inr c'"
          by (simp split: if_splits)
        from Cons.IH [OF 1] Cons.prems(2) show ?thesis by simp
      next
        case oth: False
        with Cons.prems neof False
        have 1: "preprocLoop I l (c\<lparr>tok := a, toks := toks c @ [a]\<rparr>) = Inr c'"
          by (auto split: if_splits)
        from Cons.IH [OF 1] Cons.prems(2) show ?thesis by simp
      qed
    qed
  qed
qed

lemma preprocLoop_binds:
  assumes "preprocLoop I (xs @ lab # ys) c = Inr c'" and "Type lab = TLabel"
    and "\<forall>t\<in>set xs. Type t \<noteq> TEOF"
  shows "labels c' (Data lab) = Some (of_nat (pos c + instCount I xs))"
  using assms
proof (induction xs arbitrary: c)
  case Nil
  from Nil.prems(1,2)
  have 1: "preprocLoop I ys (c\<lparr>tok := lab, labels := (labels c)(Data lab \<mapsto> of_nat (pos c))\<rparr>) = Inr c'"
    by (auto split: if_splits)
  have "labels (c\<lparr>tok := lab, labels := (labels c)(Data lab \<mapsto> of_nat (pos c))\<rparr>) (Data lab)
      = Some (of_nat (pos c))"
    by simp
  from preprocLoop_keeps_label [OF 1 this] show ?case by (simp add: instCount_def)
next
  case (Cons a xs)
  from Cons.prems(3) have neof: "Type a \<noteq> TEOF" and rest: "\<forall>t\<in>set xs. Type t \<noteq> TEOF"
    by simp_all
  show ?case
  proof (cases "Type a = TLabel")
    case True
    with Cons.prems(1) neof
    have 1: "preprocLoop I (xs @ lab # ys) (c\<lparr>tok := a, labels := (labels c)(Data a \<mapsto> of_nat (pos c))\<rparr>) = Inr c'"
      by (auto split: if_splits)
    from Cons.IH [OF 1 Cons.prems(2) rest] True show ?thesis
      by (simp add: instCount_def)
  next
    case False
    show ?thesis
    proof (cases "Type a = TWord \<and> I (Data a) \<noteq> None")
      case True
      with Cons.prems(1) neof False
      have 1: "preprocLoop I (xs @ lab # ys) (c\<lparr>tok := a, pos := pos c + 1, toks := toks c @ [a]\<rparr>) = Inr c'"
        by (simp split: if_splits)
      from Cons.IH [OF 1 Cons.prems(2) rest] True show ?thesis
        by (simp add: instCount_def)
    next
      case oth: False
      with Cons.prems(1) neof False
      have 1: "preprocLoop I (xs @ lab # ys) (c\<lparr>tok := a, toks := toks c @ [a]\<rparr>) = Inr c'"
        by (auto split: if_splits)
      from Cons.IH [OF 1 Cons.prems(2) rest] oth show ?thesis
        by (auto simp add: instCount_def)
    qed
  qed
qed

lemma preprocLoop_no_label:
  assumes "preprocLoop I l c = Inr c'" and "n \<notin> set (labelNames l)"
  shows "labels c' n = labels c n"
  using assms
proof (induction l arbitrary: c)
  case Nil
  then show ?case by auto
next
  case (Cons a l)
  show ?case
  proof (cases "Type a = TEOF")
    case True
    with Cons.prems show ?thesis by auto
  next
    case False
    note neof = this
    show ?thesis
    proof (cases "Type a = TLabel")
      case True
      with Cons.prems neof
      have 1: "preprocLoop I l (c\<lparr>tok := a, labels := (labels c)(Data a \<mapsto> of_nat (pos c))\<rparr>) = Inr c'"
        by (auto split: if_splits)
      from Cons.prems(2) True have "Data a \<noteq> n" and "n \<notin> set (labelNames l)"
        by (auto simp: labelNames_def)
      with Cons.IH [OF 1] show ?thesis by simp
    next
      case False
      with Cons.prems(2) have nl: "n \<notin> set (labelNames l)" by (simp add: labelNames_def)
      show ?thesis
      proof (cases "Type a = TWord \<and> I (Data a) \<noteq> None")
        case True
        with Cons.prems neof False
        have 1: "preprocLoop I l (c\<lparr>tok := a, pos := pos c + 1, toks := toks c @ [a]\<rparr>) = Inr c'"
          by (simp split: if_splits)
        from Cons.IH [OF 1 nl] show ?thesis by simp
      next
        case oth: False
        with Cons.prems neof False
        have 1: "preprocLoop I l (c\<lparr>tok := a, toks := toks c @ [a]\<rparr>) = Inr c'"
          by (auto split: if_splits)
        from Cons.IH [OF 1 nl] show ?thesis by simp
      qed
    qed
  qed
qed

lemma preprocLoop_succeeds:
  assumes "\<forall>t\<in>set l. Type t \<noteq> TError" and "distinct (labelNames l)"
    and "\<forall>n\<in>set (labelNames l). labels c n = None"
  shows "\<exists>c'. preprocLoop I l c = Inr c'"
  using assms
proof (induction l arbitrary: c)
  case Nil
  show ?case by simp
next
  case (Cons a l)
  from Cons.prems(1) have ne: "Type a \<noteq> TError" and ne': "\<forall>t\<in>set l. Type t \<noteq> TError"
    by simp_all
  show ?case
  proof (cases "Type a = TLabel")
    case True
    with Cons.prems(2,3) have d: "distinct (labelNames l)" and f: "Data a \<notin> set (labelNames l)"
      and u: "labels c (Data a) = None" and r: "\<forall>n\<in>set (labelNames l). labels c n = None"
      by (simp_all add: labelNames_def)
    from f r have "\<forall>n\<in>set (labelNames l).
        labels (c\<lparr>tok := a, labels := (labels c)(Data a \<mapsto> of_nat (pos c))\<rparr>) n = None"
      by auto
    from Cons.IH [OF ne' d this] True u show ?thesis by simp
  next
    case False
    with Cons.prems(2,3) have d: "distinct (labelNames l)"
      and r: "\<forall>n\<in>set (labelNames l). labels c n = None"
      by (simp_all add: labelNames_def)
    from r have r1: "\<forall>n\<in>set (labelNames l).
        labels (c\<lparr>tok := a, pos := pos c + 1, toks := toks c @ [a]\<rparr>) n = None"
      and r2: "\<forall>n\<in>set (labelNames l). labels (c\<lparr>tok := a, toks := toks c @ [a]\<rparr>) n = None"
      by simp_all
    from Cons.IH [OF ne' d r1] Cons.IH [OF ne' d r2] False ne show ?thesis by simp
  qed
qed

subsection \<open>Literals\<close>

lemmas parse_defs = argToWord_def parseBase_def ParseInt_def ParseUint_def digit_val_def

text \<open>The payload of a literal token is the digits alone: with the prefix still in it
  \<^verbatim>\<open>ParseInt\<close> fails for an explicit base and the conversion panics.\<close>

lemma argToWord_prefixed_payload:
  "argToWord F c \<lparr>Type = THex, Data = ''0xff'', Where = w\<rparr> = Inl (Panic (ParseFailed ''0xff''))"
  by (simp add: parse_defs)

text \<open>
  C8. The decimal literal 255, the hexadecimal literal ff, the octal literal 377 and the
  binary literal 11111111 all convert to the Word 255, and an instruction record with that
  operand is the opcode followed by the eight bytes 00 00 00 00 00 00 00 FF.
\<close>

theorem literal_255_all_bases:
  "argToWord F c \<lparr>Type = TDec, Data = ''255'', Where = w\<rparr> = Inr 255
   \<and> argToWord F c \<lparr>Type = THex, Data = ''ff'', Where = w\<rparr> = Inr 255
   \<and> argToWord F c \<lparr>Type = TOct, Data = ''377'', Where = w\<rparr> = Inr 255
   \<and> argToWord F c \<lparr>Type = TBin, Data = ''11111111'', Where = w\<rparr> = Inr 255
   \<and> be_bytes 8 255 = [0, 0, 0, 0, 0, 0, 0, 255]
   \<and> program (writeInst c op 255) = program c @ [op, 0, 0, 0, 0, 0, 0, 0, 255]"
proof -
  have dec: "argToWord F c \<lparr>Type = TDec, Data = ''255'', Where = w\<rparr> = Inr 255"
    by (simp add: parse_defs)
  have hex: "argToWord F c \<lparr>Type = THex, Data = ''ff'', Where = w\<rparr> = Inr 255"
    by (simp add: parse_defs)
  have oct: "argToWord F c \<lparr>Type = TOct, Data = ''377'', Where = w\<rparr> = Inr 255"
    by (simp add: parse_defs)
  have bin: "argToWord F c \<lparr>Type = TBin, Data = ''11111111'', Where = w\<rparr> = Inr 255"
    by (simp add: parse_defs)
  have rec: "program (writeInst c op 255) = program c @ [op, 0, 0, 0, 0, 0, 0, 0, 255]"
    by (simp add: writeInst_def be_bytes_8_255)
  from dec hex oct bin rec be_bytes_8_255 show ?thesis by simp
qed

text \<open>
  C10. For a character-literal token, the conversion returns the Word value of the first
  byte of the payload exactly when the payload is one byte long; a longer payload is the
  explicit panic, an empty payload is the index panic, and no error value is returned.
\<close>

theorem argToWord_char:
  assumes "Type t = TChar"
  shows "(length (Data t) = 1 \<longrightarrow> argToWord F c t = Inr (of_char (hd (Data t))))
       \<and> (length (Data t) > 1 \<longrightarrow> argToWord F c t = Inl (Panic CharTooLong))
       \<and> (Data t = [] \<longrightarrow> argToWord F c t = Inl (Panic IndexOutOfRange))
       \<and> (\<forall>e. argToWord F c t \<noteq> Inl (Err e))"
  using assms by (cases "Data t") (auto simp: argToWord_def)

theorem argToWord_char_witness:
  "argToWord noFloat New (tk TChar ''a'') = Inr 97
   \<and> argToWord noFloat New (tk TChar [CHR 0xC3, CHR 0xA9]) = Inl (Panic CharTooLong)
   \<and> argToWord noFloat New (tk TChar []) = Inl (Panic IndexOutOfRange)"
  using argToWord_char [of "tk TChar ''a''" noFloat New]
    argToWord_char [of "tk TChar [CHR 0xC3, CHR 0xA9]" noFloat New]
    argToWord_char [of "tk TChar []" noFloat New]
  by (simp add: tk_def)

subsection \<open>Properties of the container writer\<close>

lemma file_Write_upd:
  "file_Write (fs\<lparr>files := (files fs)(path \<mapsto> f)\<rparr>) path bs
     = fs\<lparr>files := (files fs)(path \<mapsto> f\<lparr>content := content f @ bs\<rparr>)\<rparr>"
  by (simp add: file_Write_def)

lemma os_Chmod_upd:
  "os_Chmod (fs\<lparr>files := (files fs)(path \<mapsto> f)\<rparr>) path m
     = fs\<lparr>files := (files fs)(path \<mapsto> f\<lparr>perm := m\<rparr>)\<rparr>"
  by (simp add: os_Chmod_def)

lemma CompileToBinary_success:
  assumes "preproc I l c = Inr c1" and "compile I F c1 = Inr c2" and "path \<notin> denied fs"
  shows "CompileToBinary I F l c fs path ex =
     (None, fs\<lparr>files := (files fs)(path \<mapsto>
        \<lparr>content = (if ex then shebang else []) @ magic @ version
             @ be_bytes 8 (programSize c2) @ be_bytes 8 (memorySize c2)
             @ be_bytes 8 (entryPoint c2) @ memory c2 @ program c2,
         perm = (if ex then 511 else case files fs path of None \<Rightarrow> 438 | Some f \<Rightarrow> perm f)\<rparr>)\<rparr>)"
proof -
  have cr: "os_Create fs path = Some (fs\<lparr>files := (files fs)(path \<mapsto>
      \<lparr>content = [], perm = (case files fs path of None \<Rightarrow> 438 | Some f \<Rightarrow> perm f)\<rparr>)\<rparr>)"
    using assms(3) by (simp add: os_Create_def)
  show ?thesis
  proof (cases ex)
    case True
    with assms(1,2) cr show ?thesis
      by (simp add: CompileToBinary_def Let_def file_Write_upd os_Chmod_upd)
  next
    case False
    with assms(1,2) cr show ?thesis
      by (simp add: CompileToBinary_def Let_def file_Write_upd os_Chmod_upd)
  qed
qed


lemma CompileToBinary_failure:
  "preproc I l c = Inl e \<Longrightarrow> CompileToBinary I F l c fs path ex = (Some e, fs)"
  "preproc I l c = Inr c1 \<Longrightarrow> compile I F c1 = Inl e
     \<Longrightarrow> CompileToBinary I F l c fs path ex = (Some e, fs)"
  by (simp_all add: CompileToBinary_def)

lemma CompileToBinary_changed:
  assumes "snd (CompileToBinary I F l c fs path ex) \<noteq> fs"
  shows "\<exists>c1 c2. preproc I l c = Inr c1 \<and> compile I F c1 = Inr c2"
proof (cases "preproc I l c")
  case (Inl e)
  with assms show ?thesis by (simp add: CompileToBinary_def)
next
  case (Inr c1)
  note p = this
  show ?thesis
  proof (cases "compile I F c1")
    case (Inl e)
    with assms p show ?thesis by (simp add: CompileToBinary_def)
  next
    case (Inr c2)
    with p show ?thesis by simp
  qed
qed

subsection \<open>The minimal program\<close>



subsection \<open>The interpreter line, and passes that fail\<close>

lemma minimal_demo:
  "preproc demoInsts [tk TLabel ''entry'', tk TWord ''halt''] New
     = Inr (New\<lparr>toks := [tk TWord ''halt'', eofToken], pos := 1, tok := eofToken,
                 programSize := 1, labels := [''entry'' \<mapsto> 0]\<rparr>)"
  "compile demoInsts F (New\<lparr>toks := [tk TWord ''halt'', eofToken], pos := 1, tok := eofToken,
                 programSize := 1, labels := [''entry'' \<mapsto> 0]\<rparr>)
     = Inr (New\<lparr>toks := [tk TWord ''halt'', eofToken], pos := 1, tok := eofToken,
                 programSize := 1, labels := [''entry'' \<mapsto> 0],
                 program := [21, 0, 0, 0, 0, 0, 0, 0, 0]\<rparr>)"
  by (simp_all add: preproc_def New_def compile_def compileLoop.simps compileStep_def
      compileInst_def nextTok_def IsArg_def writeInst_def eofToken_def tk_def demoInsts_def
      be_bytes_8_0)

text \<open>
  C9 (as amended). When executable output is requested and both passes succeed, the file
  holds the interpreter line, which is 15 bytes long (\<^verbatim>\<open>#!/usr/bin/avm\<close> and a line feed),
  directly before the 3 magic bytes, followed by the version, the three header words,
  the memory and the program; and its permission bits are set to \<^verbatim>\<open>0777\<close> (511), which
  include the executable bits.
\<close>

theorem executable_output:
  assumes "preproc I l c = Inr c1" and "compile I F c1 = Inr c2" and "path \<notin> denied fs"
  shows "CompileToBinary I F l c fs path True =
           (None, fs\<lparr>files := (files fs)(path \<mapsto>
              \<lparr>content = shebang @ magic @ version
                   @ be_bytes 8 (programSize c2) @ be_bytes 8 (memorySize c2)
                   @ be_bytes 8 (entryPoint c2) @ memory c2 @ program c2,
               perm = 511\<rparr>)\<rparr>)
         \<and> length shebang = 15 \<and> length magic = 3"
proof -
  have "length shebang = 15" and "length magic = 3"
    by (simp_all add: shebang_def magic_def)
  with CompileToBinary_success [OF assms, of True] show ?thesis by simp
qed

theorem executable_output_witness:
  "CompileToBinary demoInsts noFloat [tk TLabel ''entry'', tk TWord ''halt''] New emptyFs ''out'' True =
     (None, emptyFs\<lparr>files := [''out'' \<mapsto>
        \<lparr>content = shebang @ magic @ version @ be_bytes 8 1 @ be_bytes 8 0 @ be_bytes 8 0
             @ [] @ [21, 0, 0, 0, 0, 0, 0, 0, 0],
         perm = 511\<rparr>]\<rparr>)
   \<and> length shebang = 15 \<and> length magic = 3"
  using executable_output [OF minimal_demo, where path = "''out''" and fs = emptyFs and F = noFloat]
  by (simp add: emptyFs_def New_def)

text \<open>The interpreter line is not 16 bytes long: in the executable output of the minimal
  program the magic bytes stand at offset 15, and the three bytes at offset 16 are not
  the magic bytes.\<close>

theorem shebang_is_not_16_bytes:
  "take 3 (drop 15 (content (the (files (snd (CompileToBinary demoInsts noFloat
       [tk TLabel ''entry'', tk TWord ''halt''] New emptyFs ''out'' True)) ''out'')))) = magic
   \<and> take 3 (drop 16 (content (the (files (snd (CompileToBinary demoInsts noFloat
       [tk TLabel ''entry'', tk TWord ''halt''] New emptyFs ''out'' True)) ''out'')))) \<noteq> magic
   \<and> length shebang \<noteq> 16"
proof -
  have e: "''out'' \<notin> denied emptyFs" by (simp add: emptyFs_def)
  show ?thesis
    unfolding CompileToBinary_success [OF minimal_demo e]
    by (simp add: shebang_def magic_def version_def)
qed

text \<open>
  C3 (as amended). When preprocessing or compilation fails, \<^verbatim>\<open>CompileToBinary\<close> yields
  that failure and leaves the file system as it was; the file system changes only if both
  passes have succeeded. A token stream without a label named \<^verbatim>\<open>entry\<close> always fails in
  preprocessing, and it fails with the missing-entry-point error when the scan itself
  completes, that is when the stream has no error token and no label is declared twice.
\<close>

theorem failed_pass_writes_no_file:
  "(preproc I l c = Inl e \<longrightarrow> CompileToBinary I F l c fs path ex = (Some e, fs))
   \<and> (preproc I l c = Inr c1 \<and> compile I F c1 = Inl e
        \<longrightarrow> CompileToBinary I F l c fs path ex = (Some e, fs))
   \<and> (snd (CompileToBinary I F l c fs path ex) \<noteq> fs
        \<longrightarrow> (\<exists>c1 c2. preproc I l c = Inr c1 \<and> compile I F c1 = Inr c2))
   \<and> (''entry'' \<notin> set (labelNames l) \<longrightarrow> (\<exists>e'. preproc I l New = Inl e'))
   \<and> (''entry'' \<notin> set (labelNames l) \<and> (\<forall>t\<in>set l. Type t \<noteq> TError) \<and> distinct (labelNames l)
        \<longrightarrow> preproc I l New = Inl (Err EntryNotFound))"
proof -
  have noentry: "\<exists>e'. preproc I l New = Inl e'" if "''entry'' \<notin> set (labelNames l)"
  proof (cases "preprocLoop I l New")
    case (Inl e')
    then show ?thesis by (simp add: preproc_def)
  next
    case (Inr c')
    from preprocLoop_no_label [OF Inr that] have "labels c' ''entry'' = None"
      by (simp add: New_def)
    with Inr show ?thesis by (simp add: preproc_def)
  qed
  have missing: "preproc I l New = Inl (Err EntryNotFound)"
    if ne: "''entry'' \<notin> set (labelNames l)" and nerr: "\<forall>t\<in>set l. Type t \<noteq> TError"
      and d: "distinct (labelNames l)"
  proof -
    have "\<forall>n\<in>set (labelNames l). labels New n = None" by (simp add: New_def)
    from preprocLoop_succeeds [OF nerr d this] obtain c' where c': "preprocLoop I l New = Inr c'"
      by blast
    from preprocLoop_no_label [OF c' ne] have "labels c' ''entry'' = None"
      by (simp add: New_def)
    with c' show ?thesis by (simp add: preproc_def)
  qed
  from CompileToBinary_failure(1) [where I = I and l = l and c = c and e = e and F = F and fs = fs
      and path = path and ex = ex]
    CompileToBinary_failure(2) [where I = I and l = l and c = c and ?c1.0 = c1 and e = e and F = F
      and fs = fs and path = path and ex = ex]
    CompileToBinary_changed [where I = I and l = l and c = c and F = F and fs = fs
      and path = path and ex = ex] noentry missing
  show ?thesis by blast
qed

lemma no_argument_demo:
  "preproc demoInsts [tk TLabel ''entry'', tk TWord ''jmp''] New
     = Inr (New\<lparr>toks := [tk TWord ''jmp'', eofToken], pos := 1, tok := eofToken,
                 programSize := 1, labels := [''entry'' \<mapsto> 0]\<rparr>)"
  "compile demoInsts F (New\<lparr>toks := [tk TWord ''jmp'', eofToken], pos := 1, tok := eofToken,
                 programSize := 1, labels := [''entry'' \<mapsto> 0]\<rparr>)
     = Inl (Err (ExpectsArgument \<lparr>Path = [], Row = 0, Col = 0\<rparr> ''jmp''))"
  by (simp_all add: preproc_def New_def compile_def compileLoop.simps compileStep_def
      compileInst_def nextTok_def IsArg_def writeInst_def eofToken_def tk_def demoInsts_def)

theorem failed_pass_writes_no_file_witness:
  "CompileToBinary demoInsts noFloat [tk TWord ''halt''] New emptyFs ''out'' False
     = (Some (Err EntryNotFound), emptyFs)
   \<and> CompileToBinary demoInsts noFloat [tk TLabel ''entry'', tk TWord ''jmp''] New emptyFs ''out'' False
     = (Some (Err (ExpectsArgument \<lparr>Path = [], Row = 0, Col = 0\<rparr> ''jmp'')), emptyFs)"
proof -
  have a: "''entry'' \<notin> set (labelNames [tk TWord ''halt''])"
    "\<forall>t\<in>set [tk TWord ''halt'']. Type t \<noteq> TError" "distinct (labelNames [tk TWord ''halt''])"
    by (simp_all add: labelNames_def tk_def)
  from failed_pass_writes_no_file [where I = demoInsts and l = "[tk TWord ''halt'']" and c = New
      and e = "Err EntryNotFound" and F = noFloat and fs = emptyFs and path = "''out''"
      and ex = False] a
  have 1: "CompileToBinary demoInsts noFloat [tk TWord ''halt''] New emptyFs ''out'' False
     = (Some (Err EntryNotFound), emptyFs)"
    by blast
  from failed_pass_writes_no_file [where I = demoInsts
      and l = "[tk TLabel ''entry'', tk TWord ''jmp'']" and c = New
      and e = "Err (ExpectsArgument \<lparr>Path = [], Row = 0, Col = 0\<rparr> ''jmp'')"
      and F = noFloat and fs = emptyFs and path = "''out''" and ex = False]
    no_argument_demo(1) no_argument_demo(2) [of noFloat]
  have 2: "CompileToBinary demoInsts noFloat [tk TLabel ''entry'', tk TWord ''jmp''] New emptyFs ''out'' False
     = (Some (Err (ExpectsArgument \<lparr>Path = [], Row = 0, Col = 0\<rparr> ''jmp'')), emptyFs)"
    by blast
  from 1 2 show ?thesis by simp
qed

text \<open>A stream without an \<^verbatim>\<open>entry\<close> label that holds an error token fails with the
  error of that token, not with the missing-entry-point error.\<close>

theorem missing_entry_other_error:
  "''entry'' \<notin> set (labelNames [tk TError ''bad''])
   \<and> CompileToBinary demoInsts noFloat [tk TError ''bad''] New emptyFs ''out'' False
       = (Some (Err (LexError \<lparr>Path = [], Row = 0, Col = 0\<rparr> ''bad'')), emptyFs)
   \<and> CompileToBinary demoInsts noFloat [tk TError ''bad''] New emptyFs ''out'' False
       \<noteq> (Some (Err EntryNotFound), emptyFs)"
  by (simp add: labelNames_def tk_def CompileToBinary_def preproc_def)

subsection \<open>Instructions and their arguments\<close>

text \<open>
  C6 (as amended). Let the current token name an instruction of the table and let a next
  token exist. If the instruction takes no argument and the next token is argument-shaped,
  \<^verbatim>\<open>compileInst\<close> fails with "expects no arguments"; if it takes an argument and the
  next token is not argument-shaped (the end marker included), it fails with "expects an
  argument"; if it takes no argument and the next token is not argument-shaped, the record
  with operand 0 is emitted; and if it takes an argument and the next token is
  argument-shaped, the record with the converted operand is emitted provided that the
  conversion of the argument succeeds, whose failure is the result otherwise.
\<close>

theorem compileInst_arity:
  assumes "I (Data (tok c)) = Some i" and "Type (tok c) \<noteq> TEOF"
    and "pos c + 1 < length (toks c)"
  shows "(\<not> HasArg i \<and> IsArg (toks c ! (pos c + 1)) \<longrightarrow>
            compileInst I F c = Inl (Err (ExpectsNoArguments (Where (tok c)) (Data (tok c)))))
       \<and> (HasArg i \<and> \<not> IsArg (toks c ! (pos c + 1)) \<longrightarrow>
            compileInst I F c = Inl (Err (ExpectsArgument (Where (tok c)) (Data (tok c)))))
       \<and> (HasArg i \<and> Type (toks c ! (pos c + 1)) = TEOF \<longrightarrow>
            compileInst I F c = Inl (Err (ExpectsArgument (Where (tok c)) (Data (tok c)))))
       \<and> (\<not> HasArg i \<and> \<not> IsArg (toks c ! (pos c + 1)) \<longrightarrow>
            compileInst I F c
              = Inr (writeInst (c\<lparr>pos := pos c + 1, tok := toks c ! (pos c + 1)\<rparr>) (Op i) 0))
       \<and> (HasArg i \<and> IsArg (toks c ! (pos c + 1)) \<longrightarrow>
            compileInst I F c
              = (case argToWord F (c\<lparr>pos := pos c + 1, tok := toks c ! (pos c + 1)\<rparr>)
                        (toks c ! (pos c + 1)) of
                   Inl e \<Rightarrow> Inl e
                 | Inr d \<Rightarrow>
                     if pos c + 2 < length (toks c)
                     then Inr (writeInst (c\<lparr>pos := pos c + 2, tok := toks c ! (pos c + 2)\<rparr>)
                                 (Op i) d)
                     else Inl (Panic IndexOutOfRange)))"
proof -
  let ?c1 = "c\<lparr>pos := pos c + 1, tok := toks c ! (pos c + 1)\<rparr>"
  have n1: "nextTok c = Inr ?c1"
    using assms(2,3) by (simp add: nextTok_def)
  have n2: "nextTok ?c1 = (if pos c + 2 < length (toks c)
                            then Inr (c\<lparr>pos := pos c + 2, tok := toks c ! (pos c + 2)\<rparr>)
                            else Inl (Panic IndexOutOfRange))"
    if "IsArg (toks c ! (pos c + 1))"
    using that by (auto simp: nextTok_def IsArg_def add.commute)
  have eof: "\<not> IsArg (toks c ! (pos c + 1))" if "Type (toks c ! (pos c + 1)) = TEOF"
    using that by (simp add: IsArg_def)
  have a: "compileInst I F c = Inl (Err (ExpectsNoArguments (Where (tok c)) (Data (tok c))))"
    if "\<not> HasArg i" "IsArg (toks c ! (pos c + 1))"
    using that assms(1) n1 by (simp add: compileInst_def Let_def)
  have b: "compileInst I F c = Inl (Err (ExpectsArgument (Where (tok c)) (Data (tok c))))"
    if "HasArg i" "\<not> IsArg (toks c ! (pos c + 1))"
    using that assms(1) n1 by (simp add: compileInst_def Let_def)
  have d: "compileInst I F c = Inr (writeInst ?c1 (Op i) 0)"
    if "\<not> HasArg i" "\<not> IsArg (toks c ! (pos c + 1))"
    using that assms(1) n1 by (simp add: compileInst_def Let_def)
  have e: "compileInst I F c
              = (case argToWord F ?c1 (toks c ! (pos c + 1)) of
                   Inl e \<Rightarrow> Inl e
                 | Inr d \<Rightarrow>
                     if pos c + 2 < length (toks c)
                     then Inr (writeInst (c\<lparr>pos := pos c + 2, tok := toks c ! (pos c + 2)\<rparr>)
                                 (Op i) d)
                     else Inl (Panic IndexOutOfRange))"
    if "HasArg i" "IsArg (toks c ! (pos c + 1))"
    using that assms(1) n1 n2 [OF that(2)] by (simp add: compileInst_def Let_def split: sum.splits)
  from a b d e eof show ?thesis by blast
qed

text \<open>An instruction with an argument, followed by an argument-shaped token, for which
  no record is emitted: the address name is not declared.\<close>

lemma undeclared_demo:
  "preproc demoInsts [tk TLabel ''entry'', tk TWord ''jmp'', tk TAddr ''x''] New
     = Inr (New\<lparr>toks := [tk TWord ''jmp'', tk TAddr ''x'', eofToken], pos := 1, tok := eofToken,
                 programSize := 1, labels := [''entry'' \<mapsto> 0]\<rparr>)"
  by (simp add: preproc_def New_def eofToken_def tk_def demoInsts_def)

theorem emission_needs_conversion:
  "HasArg (the (demoInsts ''jmp'')) \<and> IsArg (tk TAddr ''x'')
   \<and> compile demoInsts noFloat
        (projr (preproc demoInsts [tk TLabel ''entry'', tk TWord ''jmp'', tk TAddr ''x''] New))
       = Inl (Err (AddressNotDeclared \<lparr>Path = [], Row = 0, Col = 0\<rparr> ''x''))"
  unfolding undeclared_demo
  by (simp add: New_def compile_def compileLoop.simps compileStep_def
      compileInst_def nextTok_def IsArg_def argToWord_def eofToken_def tk_def demoInsts_def)


theorem compileInst_arity_witness:
  "compileInst demoInsts noFloat (compileStart (New\<lparr>toks := [tk TWord ''halt'', tk TDec ''1'', eofToken]\<rparr>))
     = Inl (Err (ExpectsNoArguments \<lparr>Path = [], Row = 0, Col = 0\<rparr> ''halt''))
   \<and> compileInst demoInsts noFloat (compileStart (New\<lparr>toks := [tk TWord ''jmp'', eofToken]\<rparr>))
     = Inl (Err (ExpectsArgument \<lparr>Path = [], Row = 0, Col = 0\<rparr> ''jmp''))
   \<and> program (projr (compileInst demoInsts noFloat
         (compileStart (New\<lparr>toks := [tk TWord ''halt'', eofToken]\<rparr>))))
     = [21, 0, 0, 0, 0, 0, 0, 0, 0]
   \<and> program (projr (compileInst demoInsts noFloat
         (compileStart (New\<lparr>toks := [tk TWord ''jmp'', tk TDec ''255'', eofToken]\<rparr>))))
     = [14, 0, 0, 0, 0, 0, 0, 0, 255]"
proof -
  let ?h = "\<lparr>Op = 21, HasArg = False\<rparr>" and ?j = "\<lparr>Op = 14, HasArg = True\<rparr>"
  let ?a = "compileStart (New\<lparr>toks := [tk TWord ''halt'', tk TDec ''1'', eofToken]\<rparr>)"
  let ?b = "compileStart (New\<lparr>toks := [tk TWord ''jmp'', eofToken]\<rparr>)"
  let ?c = "compileStart (New\<lparr>toks := [tk TWord ''halt'', eofToken]\<rparr>)"
  let ?d = "compileStart (New\<lparr>toks := [tk TWord ''jmp'', tk TDec ''255'', eofToken]\<rparr>)"
  have a: "compileInst demoInsts noFloat ?a
     = Inl (Err (ExpectsNoArguments \<lparr>Path = [], Row = 0, Col = 0\<rparr> ''halt''))"
    using compileInst_arity [where I = demoInsts and c = ?a and i = ?h and F = noFloat]
    by (simp add: compileStart_def New_def tk_def eofToken_def demoInsts_def IsArg_def)
  have b: "compileInst demoInsts noFloat ?b
     = Inl (Err (ExpectsArgument \<lparr>Path = [], Row = 0, Col = 0\<rparr> ''jmp''))"
    using compileInst_arity [where I = demoInsts and c = ?b and i = ?j and F = noFloat]
    by (simp add: compileStart_def New_def tk_def eofToken_def demoInsts_def IsArg_def)
  have c: "program (projr (compileInst demoInsts noFloat ?c)) = [21, 0, 0, 0, 0, 0, 0, 0, 0]"
    using compileInst_arity [where I = demoInsts and c = ?c and i = ?h and F = noFloat]
    by (simp add: compileStart_def New_def tk_def eofToken_def demoInsts_def IsArg_def
        writeInst_def be_bytes_8_0)
  have d: "program (projr (compileInst demoInsts noFloat ?d)) = [14, 0, 0, 0, 0, 0, 0, 0, 255]"
    using compileInst_arity [where I = demoInsts and c = ?d and i = ?j and F = noFloat]
    by (simp add: compileStart_def New_def tk_def eofToken_def demoInsts_def IsArg_def
        writeInst_def be_bytes_8_255 parse_defs)
  from a b c d show ?thesis by simp
qed

subsection \<open>Variable declarations\<close>

lemma letProgram_preproc:
  "preproc demoInsts letProgram New = Inr (letState\<lparr>pos := 1, tok := eofToken\<rparr>)"
  by (simp add: letProgram_def letState_def preproc_def New_def eofToken_def tk_def demoInsts_def)

lemma letProgram_start: "compileStart (letState\<lparr>pos := 1, tok := eofToken\<rparr>) = letState"
  by (simp add: compileStart_def letState_def)

lemma be_bytes_1: "be_bytes (Suc 0) w = [ucast w]"
  by (simp add: be_bytes_def)

lemma letState_compileLet:
  "compileLet F letState
     = Inr (letState\<lparr>pos := 8, tok := tk TWord ''halt'', vars := [''x'' \<mapsto> 1],
                      memory := [1, 2, 3], memorySize := 3\<rparr>)"
  by (simp add: letState_def New_def compileLet_def letData.simps letItem_def elemSize_def
      writeMemory_def nextTok_def IsArg_def tk_def eofToken_def parse_defs be_bytes_1 Let_def)


lemma compileStep_memory:
  assumes "compileStep I F c = Inr c'" and "memorySize c = of_nat (length (memory c))"
  shows "memorySize c' = of_nat (length (memory c'))"
proof (cases "Type (toks c ! pos c) = TWord")
  case True
  with assms(1) have "compileInst I F c = Inr c'"
    by (simp add: compileStep_def split: if_splits)
  from compileInst_frame [OF this] assms(2) show ?thesis by auto
next
  case False
  with assms(1) have "compileLet F c = Inr c'"
    by (simp add: compileStep_def split: if_splits)
  from compileLet_frame [OF this] assms(2) show ?thesis by auto
qed

lemma compileReach_memory:
  assumes "compileReach I F c0 c" and "memorySize c0 = of_nat (length (memory c0))"
  shows "memorySize c = of_nat (length (memory c))"
  using assms
proof (induction rule: compileReach.induct)
  case start
  then show ?case by simp
next
  case (step c c')
  from compileStep_memory [OF step.hyps(3)] step.IH step.prems show ?case by simp
qed

lemma preproc_New:
  assumes "preproc I l New = Inr c1"
  shows "vars c1 = Map.empty" and "memory c1 = []" and "memorySize c1 = 0" and "program c1 = []"
    and "toks c1 \<noteq> []" and "Type (last (toks c1)) = TEOF"
  using preproc_frame [OF assms] by (auto simp: New_def)

text \<open>
  C1 (as amended). For every \<^verbatim>\<open>let\<close> declaration that the compile pass accepts, the name
  is bound in the variable table to the byte length of the memory region at the moment of
  the declaration plus one, and an address reference to the name resolves to that value.
  In particular the declaration \<^verbatim>\<open>let x sz8 1, 2, 3\<close> at the start of a program allocates
  exactly the three bytes 1, 2, 3 and binds \<open>x\<close> to 1.
\<close>

theorem let_binds_name:
  assumes "preproc I l New = Inr c1" and "compileReach I F (compileStart c1) c"
    and "compileLet F c = Inr c'"
  shows "vars c' = (vars c)(Data (toks c ! (pos c + 1)) \<mapsto> of_nat (length (memory c)) + 1)
       \<and> argToWord F c' \<lparr>Type = TAddr, Data = Data (toks c ! (pos c + 1)), Where = w\<rparr>
           = Inr (of_nat (length (memory c)) + 1)
       \<and> memory (projr (compileLet F letState)) = [1, 2, 3]
       \<and> memorySize (projr (compileLet F letState)) = 3
       \<and> vars (projr (compileLet F letState)) ''x'' = Some 1"
proof -
  have "memorySize (compileStart c1) = of_nat (length (memory (compileStart c1)))"
    using preproc_New(2,3) [OF assms(1)] by (simp add: compileStart_def)
  from compileReach_memory [OF assms(2) this] have m: "memorySize c = of_nat (length (memory c))" .
  from compileLet_frame [OF assms(3)] obtain p t bs where
    fresh: "labels c (Data (toks c ! (pos c + 1))) = None"
    and c': "c' = c\<lparr>pos := p, tok := t,
                 vars := (vars c)(Data (toks c ! (pos c + 1)) \<mapsto> memorySize c + 1),
                 memory := memory c @ bs, memorySize := memorySize c + of_nat (length bs)\<rparr>"
    by blast
  have v: "vars c' = (vars c)(Data (toks c ! (pos c + 1)) \<mapsto> of_nat (length (memory c)) + 1)"
    unfolding c' using m by simp
  have a: "argToWord F c' \<lparr>Type = TAddr, Data = Data (toks c ! (pos c + 1)), Where = w\<rparr>
           = Inr (of_nat (length (memory c)) + 1)"
    using fresh m unfolding c' by (simp add: argToWord_def)
  from v a show ?thesis by (simp add: letState_compileLet)
qed

theorem let_binds_name_witness:
  "vars (projr (compileLet noFloat letState)) = [''x'' \<mapsto> 1]
   \<and> argToWord noFloat (projr (compileLet noFloat letState)) (tk TAddr ''x'') = Inr 1"
proof -
  have r: "compileReach demoInsts noFloat (compileStart (letState\<lparr>pos := 1, tok := eofToken\<rparr>)) letState"
    unfolding letProgram_start by (rule compileReach.start)
  have n: "Data (toks letState ! (pos letState + 1)) = ''x''" "memory letState = []"
    "vars letState = Map.empty"
    by (simp_all add: letState_def New_def tk_def)
  from let_binds_name [OF letProgram_preproc r letState_compileLet,
      of "\<lparr>Path = [], Row = 0, Col = 0\<rparr>"]
  show ?thesis
    unfolding n letState_compileLet by (simp add: tk_def)
qed

text \<open>The name is not bound to the byte length itself: the memory region is empty when
  \<open>x\<close> is declared, and \<open>x\<close> is bound to 1.\<close>

theorem let_address_is_not_length:
  "length (memory letState) = 0
   \<and> vars (projr (compileLet noFloat letState)) ''x'' = Some 1
   \<and> vars (projr (compileLet noFloat letState)) ''x'' \<noteq> Some (of_nat (length (memory letState)))"
  by (simp add: letState_compileLet) (simp add: letState_def New_def)

subsection \<open>References to labels and variables\<close>

lemma compile_compileLoop:
  assumes "toks c1 \<noteq> []"
  shows "compile I F c1 = compileLoop I F (compileStart c1)"
  using assms by (cases "toks c1") (simp_all add: compile_def compileStart_def)

lemma preproc_labels:
  assumes "preproc I (xs @ lab # ys) New = Inr c1" and "Type lab = TLabel"
    and "\<forall>t\<in>set xs. Type t \<noteq> TEOF"
  shows "labels c1 (Data lab) = Some (of_nat (instCount I xs))"
proof -
  from assms(1) obtain c' where l: "preprocLoop I (xs @ lab # ys) New = Inr c'"
    and "labels c1 = labels c'"
    by (auto simp: preproc_def split: sum.splits option.splits)
  with preprocLoop_binds [OF l assms(2,3)] show ?thesis by (simp add: New_def)
qed

text \<open>What holds at the head of every round of the compile pass that follows a successful
  preprocessing pass.\<close>

lemma compile_pass_invariant:
  assumes "preproc I l New = Inr c1" and "compileReach I F (compileStart c1) c"
  shows "toks c = toks c1" and "labels c = labels c1" and "coherent c"
    and "\<forall>n. vars c n \<noteq> None \<longrightarrow> (\<exists>j<pos c. letAt (toks c) j n)"
    and "Type (last (toks c)) = TEOF"
proof -
  note n = preproc_New [OF assms(1)]
  have co: "coherent (compileStart c1)"
    using n(5) by (simp add: coherent_def compileStart_def hd_conv_nth)
  have vd: "\<forall>n. vars (compileStart c1) n \<noteq> None
      \<longrightarrow> (\<exists>j<pos (compileStart c1). letAt (toks (compileStart c1)) j n)"
    using n(1) by (simp add: compileStart_def)
  from compileReach_invariant [OF assms(2) co vd]
  have i: "toks c = toks (compileStart c1)" "labels c = labels (compileStart c1)" "coherent c"
    "\<forall>n. vars c n \<noteq> None \<longrightarrow> (\<exists>j<pos c. letAt (toks c) j n)"
    by blast+
  from i(1) show "toks c = toks c1" by (simp add: compileStart_def)
  from i(2) show "labels c = labels c1" by (simp add: compileStart_def)
  from i(3) show "coherent c" .
  from i(4) show "\<forall>n. vars c n \<noteq> None \<longrightarrow> (\<exists>j<pos c. letAt (toks c) j n)" .
  from i(1) n(6) show "Type (last (toks c)) = TEOF" by (simp add: compileStart_def)
qed

text \<open>A token that is not the end marker is not the last one of the filtered tokens.\<close>

lemma not_last:
  assumes "Type (last ts) = TEOF" and "k < length ts" and "Type (ts ! k) \<noteq> TEOF"
  shows "k + 1 < length ts"
proof (rule ccontr)
  assume "\<not> k + 1 < length ts"
  with assms(2) have "k = length ts - 1" and "ts \<noteq> []" by auto
  then have "ts ! k = last ts" by (simp add: last_conv_nth)
  with assms(1,3) show False by simp
qed

text \<open>An instruction with an address argument, at the head of a round of the compile
  pass: what \<^verbatim>\<open>compileInst\<close> does is decided by the two symbol tables.\<close>

lemma compileInst_address:
  assumes pre: "preproc I l New = Inr c1" and reach: "compileReach I F (compileStart c1) c"
    and w: "Type (tok c) = TWord" and i: "I (Data (tok c)) = Some i" and h: "HasArg i"
    and a: "Type (toks c ! (pos c + 1)) = TAddr" and n: "Data (toks c ! (pos c + 1)) = n"
  shows "compileInst I F c =
           (case labels c1 n of
              Some d \<Rightarrow> Inr (writeInst (c\<lparr>pos := pos c + 2, tok := toks c ! (pos c + 2)\<rparr>) (Op i) d)
            | None \<Rightarrow>
                (case vars c n of
                   Some d \<Rightarrow> Inr (writeInst (c\<lparr>pos := pos c + 2, tok := toks c ! (pos c + 2)\<rparr>)
                                     (Op i) d)
                 | None \<Rightarrow> Inl (Err (AddressNotDeclared (Where (toks c ! (pos c + 1))) n))))"
proof -
  note inv = compile_pass_invariant [OF pre reach]
  from inv(3) have k: "pos c < length (toks c)" and t: "tok c = toks c ! pos c"
    by (simp_all add: coherent_def)
  from w t have "Type (toks c ! pos c) \<noteq> TEOF" by simp
  from not_last [OF inv(5) k this] have k1: "pos c + 1 < length (toks c)" .
  from a have "Type (toks c ! (pos c + 1)) \<noteq> TEOF" by simp
  from not_last [OF inv(5) k1 this] have k2: "pos c + 2 < length (toks c)" by simp
  let ?c1 = "c\<lparr>pos := pos c + 1, tok := toks c ! (pos c + 1)\<rparr>"
  have n1: "nextTok c = Inr ?c1"
    using w k1 by (simp add: nextTok_def)
  have n2: "nextTok ?c1 = Inr (c\<lparr>pos := pos c + 2, tok := toks c ! (pos c + 2)\<rparr>)"
    using a k2 by (simp add: nextTok_def add.commute)
  have ia: "IsArg (toks c ! (pos c + 1))" using a by (simp add: IsArg_def)
  have conv: "argToWord F ?c1 (toks c ! (pos c + 1)) =
      (case labels c1 n of
         Some d \<Rightarrow> Inr d
       | None \<Rightarrow> (case vars c n of
                    Some d \<Rightarrow> Inr d
                  | None \<Rightarrow> Inl (Err (AddressNotDeclared (Where (toks c ! (pos c + 1))) n))))"
    using a n inv(2) by (simp add: argToWord_def split: option.splits)
  show ?thesis
    using i h n1 n2 ia conv
    by (simp add: compileInst_def Let_def split: option.splits)
qed

lemma compileLoop_fails:
  assumes "compileReach I F c0 c" and "Type (tok c) \<noteq> TEOF" and "compileStep I F c = Inl e"
  shows "compileLoop I F c0 = Inl e"
proof -
  have "compileLoop I F c = Inl e"
    using assms(2,3) by (subst compileLoop.simps) simp
  with compileReach_loop [OF assms(1)] show ?thesis by simp
qed

text \<open>
  C4. In a compile pass that follows a successful preprocessing pass, let the current token
  be an instruction with an argument and the next token an address reference to the name
  \<open>n\<close>. If \<open>n\<close> is not a label and no \<^verbatim>\<open>let\<close> declaration of \<open>n\<close> stands before the
  reference in the filtered tokens (its declaration comes later), the instruction and with
  it the whole compile pass fail with the address-name-not-declared error. If \<open>n\<close> is
  declared as a label anywhere in the stream, also after the reference, the reference
  resolves to the label and the record is emitted.
\<close>

theorem forward_reference_variable_and_label:
  assumes pre: "preproc I l New = Inr c1" and reach: "compileReach I F (compileStart c1) c"
    and w: "Type (tok c) = TWord" and i: "I (Data (tok c)) = Some i" and h: "HasArg i"
    and a: "Type (toks c ! (pos c + 1)) = TAddr" and n: "Data (toks c ! (pos c + 1)) = n"
  shows "(n \<notin> set (labelNames l) \<and> (\<forall>j<pos c. \<not> letAt (toks c) j n) \<longrightarrow>
            compileInst I F c = Inl (Err (AddressNotDeclared (Where (toks c ! (pos c + 1))) n))
          \<and> compile I F c1 = Inl (Err (AddressNotDeclared (Where (toks c ! (pos c + 1))) n)))
       \<and> (n \<in> set (labelNames l) \<and> (\<forall>t\<in>set l. Type t \<noteq> TEOF) \<longrightarrow>
            (\<exists>d. labels c1 n = Some d
               \<and> compileInst I F c
                   = Inr (writeInst (c\<lparr>pos := pos c + 2, tok := toks c ! (pos c + 2)\<rparr>) (Op i) d)))"
proof (intro conjI impI)
  note inv = compile_pass_invariant [OF pre reach]
  note ci = compileInst_address [OF pre reach w i h a n]
  assume v: "n \<notin> set (labelNames l) \<and> (\<forall>j<pos c. \<not> letAt (toks c) j n)"
  from pre obtain c' where l: "preprocLoop I l New = Inr c'" and "labels c1 = labels c'"
    by (auto simp: preproc_def split: sum.splits option.splits)
  with preprocLoop_no_label [OF l] v have nl: "labels c1 n = None" by (simp add: New_def)
  from inv(4) v have nv: "vars c n = None" by blast
  from ci nl nv
  show e: "compileInst I F c = Inl (Err (AddressNotDeclared (Where (toks c ! (pos c + 1))) n))"
    by simp
  from inv(3) w have "Type (toks c ! pos c) = TWord" and k: "pos c < length (toks c)"
    by (simp_all add: coherent_def)
  with e have "compileStep I F c = Inl (Err (AddressNotDeclared (Where (toks c ! (pos c + 1))) n))"
    by (simp add: compileStep_def)
  from compileLoop_fails [OF reach _ this] w
  have "compileLoop I F (compileStart c1)
      = Inl (Err (AddressNotDeclared (Where (toks c ! (pos c + 1))) n))"
    by simp
  with compile_compileLoop [OF preproc_New(5) [OF pre]]
  show "compile I F c1 = Inl (Err (AddressNotDeclared (Where (toks c ! (pos c + 1))) n))"
    by simp
next
  note ci = compileInst_address [OF pre reach w i h a n]
  assume lb: "n \<in> set (labelNames l) \<and> (\<forall>t\<in>set l. Type t \<noteq> TEOF)"
  then obtain lab where "lab \<in> set l" and tl: "Type lab = TLabel" and dl: "Data lab = n"
    by (auto simp: labelNames_def)
  then obtain xs ys where s: "l = xs @ lab # ys" by (meson split_list)
  with lb have "\<forall>t\<in>set xs. Type t \<noteq> TEOF" by simp
  from preproc_labels [OF pre [unfolded s] tl this] dl
  have "labels c1 n = Some (of_nat (instCount I xs))" by simp
  with ci show "\<exists>d. labels c1 n = Some d
      \<and> compileInst I F c
          = Inr (writeInst (c\<lparr>pos := pos c + 2, tok := toks c ! (pos c + 2)\<rparr>) (Op i) d)"
    by simp
qed

lemma varFwdProgram_preproc: "preproc demoInsts varFwdProgram New = Inr varFwdState"
  by (simp add: varFwdProgram_def varFwdState_def preproc_def New_def eofToken_def tk_def
      demoInsts_def)

lemma labFwdProgram_preproc: "preproc demoInsts labFwdProgram New = Inr labFwdState"
  by (simp add: labFwdProgram_def labFwdState_def preproc_def New_def eofToken_def tk_def
      demoInsts_def)

theorem forward_reference_variable_and_label_witness:
  "compile demoInsts noFloat (projr (preproc demoInsts varFwdProgram New))
     = Inl (Err (AddressNotDeclared \<lparr>Path = [], Row = 0, Col = 0\<rparr> ''x''))
   \<and> program (projr (compileInst demoInsts noFloat
         (compileStart (projr (preproc demoInsts labFwdProgram New)))))
     = [14, 0, 0, 0, 0, 0, 0, 0, 1]"
proof -
  let ?j = "\<lparr>Op = 14, HasArg = True\<rparr>"
  let ?v = "compileStart varFwdState" and ?l = "compileStart labFwdState"
  have v: "Type (tok ?v) = TWord" "demoInsts (Data (tok ?v)) = Some ?j" "HasArg ?j"
    "Type (toks ?v ! (pos ?v + 1)) = TAddr" "Data (toks ?v ! (pos ?v + 1)) = ''x''"
    by (simp_all add: compileStart_def varFwdState_def New_def tk_def demoInsts_def)
  have vh: "''x'' \<notin> set (labelNames varFwdProgram)" "\<forall>j<pos ?v. \<not> letAt (toks ?v) j ''x''"
    "Where (toks ?v ! (pos ?v + 1)) = \<lparr>Path = [], Row = 0, Col = 0\<rparr>"
    by (simp_all add: compileStart_def varFwdState_def New_def tk_def labelNames_def
        varFwdProgram_def)
  from forward_reference_variable_and_label [OF varFwdProgram_preproc compileReach.start v,
      of noFloat] vh
  have 1: "compile demoInsts noFloat varFwdState
     = Inl (Err (AddressNotDeclared \<lparr>Path = [], Row = 0, Col = 0\<rparr> ''x''))"
    by simp
  have l: "Type (tok ?l) = TWord" "demoInsts (Data (tok ?l)) = Some ?j" "HasArg ?j"
    "Type (toks ?l ! (pos ?l + 1)) = TAddr" "Data (toks ?l ! (pos ?l + 1)) = ''L''"
    by (simp_all add: compileStart_def labFwdState_def New_def tk_def demoInsts_def)
  have lh: "''L'' \<in> set (labelNames labFwdProgram)" "\<forall>t\<in>set labFwdProgram. Type t \<noteq> TEOF"
    "labels labFwdState ''L'' = Some 1"
    by (simp_all add: labFwdState_def New_def tk_def labelNames_def labFwdProgram_def)
  from forward_reference_variable_and_label [OF labFwdProgram_preproc compileReach.start l,
      of noFloat] lh
  have "compileInst demoInsts noFloat ?l
      = Inr (writeInst (?l\<lparr>pos := pos ?l + 2, tok := toks ?l ! (pos ?l + 2)\<rparr>) 14 1)"
    by simp
  then have 2: "program (projr (compileInst demoInsts noFloat ?l)) = [14, 0, 0, 0, 0, 0, 0, 0, 1]"
    by (simp add: writeInst_def be_bytes_8 compileStart_def labFwdState_def New_def)
  from 1 2 show ?thesis
    by (simp add: varFwdProgram_preproc labFwdProgram_preproc)
qed

text \<open>
  A label declared at any place of the stream, in particular after an instruction that
  refers to it, is bound by the preprocessing pass to the value of its counter at the
  declaration, which is the number of words before the declaration that name an
  instruction; and an instruction of the compile pass whose argument refers to the label
  is encoded with that number as operand.
\<close>

theorem label_reference_resolves:
  assumes pre: "preproc I (xs @ lab # ys) New = Inr c1" and lab: "Type lab = TLabel"
    and neof: "\<forall>t\<in>set xs. Type t \<noteq> TEOF"
    and reach: "compileReach I F (compileStart c1) c"
    and w: "Type (tok c) = TWord" and i: "I (Data (tok c)) = Some i" and h: "HasArg i"
    and a: "Type (toks c ! (pos c + 1)) = TAddr" and n: "Data (toks c ! (pos c + 1)) = Data lab"
  shows "labels c1 (Data lab) = Some (of_nat (instCount I xs))
       \<and> (\<exists>c'. compileInst I F c = Inr c'
              \<and> program c' = program c @ [Op i] @ be_bytes 8 (of_nat (instCount I xs)))"
proof -
  from preproc_labels [OF pre lab neof]
  have l: "labels c1 (Data lab) = Some (of_nat (instCount I xs))" .
  from compileInst_address [OF pre reach w i h a n] l
  have "compileInst I F c
      = Inr (writeInst (c\<lparr>pos := pos c + 2, tok := toks c ! (pos c + 2)\<rparr>) (Op i)
               (of_nat (instCount I xs)))"
    by simp
  with l show ?thesis by (simp add: writeInst_def)
qed


lemma jumpProgram_preproc: "preproc demoInsts jumpProgram New = Inr jumpState"
  by (simp add: jumpProgram_def jumpState_def preproc_def New_def eofToken_def tk_def
      demoInsts_def)

theorem label_reference_resolves_witness:
  "labels (projr (preproc demoInsts jumpProgram New)) ''L'' = Some 2
   \<and> program (projr (compileInst demoInsts noFloat
         (compileStart (projr (preproc demoInsts jumpProgram New)))))
     = [14, 0, 0, 0, 0, 0, 0, 0, 2]"
proof -
  let ?j = "\<lparr>Op = 14, HasArg = True\<rparr>" and ?c = "compileStart jumpState"
  let ?xs = "[tk TLabel ''entry'', tk TWord ''jmp'', tk TAddr ''L'', tk TWord ''halt'']"
  have p: "preproc demoInsts (?xs @ tk TLabel ''L'' # [tk TWord ''halt'']) New = Inr jumpState"
    using jumpProgram_preproc by (simp add: jumpProgram_def)
  have h: "Type (tk TLabel ''L'') = TLabel" "\<forall>t\<in>set ?xs. Type t \<noteq> TEOF"
    by (simp_all add: tk_def)
  have c: "Type (tok ?c) = TWord" "demoInsts (Data (tok ?c)) = Some ?j" "HasArg ?j"
    "Type (toks ?c ! (pos ?c + 1)) = TAddr" "Data (toks ?c ! (pos ?c + 1)) = Data (tk TLabel ''L'')"
    by (simp_all add: compileStart_def jumpState_def New_def tk_def demoInsts_def)
  have n: "instCount demoInsts ?xs = 2" "program ?c = []" "Data (tk TLabel ''L'') = ''L''"
    by (simp_all add: instCount_def tk_def demoInsts_def compileStart_def jumpState_def New_def)
  from label_reference_resolves [OF p h compileReach.start c, of noFloat]
  obtain c' where "labels jumpState ''L'' = Some 2"
    and "compileInst demoInsts noFloat ?c = Inr c'" and "program c' = [14] @ be_bytes 8 2"
    unfolding n by auto
  then show ?thesis
    by (simp add: jumpProgram_preproc be_bytes_8)
qed

subsection \<open>Slots and records\<close>

lemma instCount_filter: "instCount I ts = length (filter (isInstWord I) ts)"
  unfolding instCount_def isInstWord_def [abs_def] by simp

lemma instCount_append: "instCount I (xs @ ys) = instCount I xs + instCount I ys"
  by (simp add: instCount_def)

lemma instCount_no_labels:
  "instCount I (filter (\<lambda>t. Type t \<noteq> TLabel) xs) = instCount I xs"
proof -
  have "filter (\<lambda>t. Type t = TWord \<and> I (Data t) \<noteq> None) (filter (\<lambda>t. Type t \<noteq> TLabel) xs)
      = filter (\<lambda>t. Type t = TWord \<and> I (Data t) \<noteq> None) xs"
    by (induction xs) auto
  then show ?thesis by (simp add: instCount_def)
qed

lemma instCount_take_Suc:
  assumes "p < length ts"
  shows "instCount I (take (Suc p) ts) = instCount I (take p ts) + (if isInstWord I (ts ! p) then 1 else 0)"
  using assms by (simp add: take_Suc_conv_app_nth instCount_def isInstWord_def)

lemma instCount_take_none:
  assumes "p \<le> q" and "q \<le> length ts" and "\<forall>k. p \<le> k \<and> k < q \<longrightarrow> \<not> isInstWord I (ts ! k)"
  shows "instCount I (take q ts) = instCount I (take p ts)"
  using assms
proof (induction q)
  case 0
  then show ?case by simp
next
  case (Suc q)
  show ?case
  proof (cases "p = Suc q")
    case True
    then show ?thesis by simp
  next
    case False
    with Suc.prems have pq: "p \<le> q" and ql: "q < length ts" by simp_all
    from Suc.prems(3) pq have "\<not> isInstWord I (ts ! q)" by simp
    moreover from Suc.prems(3) have "\<forall>k. p \<le> k \<and> k < q \<longrightarrow> \<not> isInstWord I (ts ! k)" by simp
    ultimately show ?thesis
      using Suc.IH [OF pq] ql instCount_take_Suc [OF ql, of I] by simp
  qed
qed

text \<open>The tokens that the data list of a \<^verbatim>\<open>let\<close> consumes are not words.\<close>

lemma letItem_not_word:
  assumes "letItem F sz c = Inr c'"
  shows "Type (tok c) \<noteq> TWord \<and> Type (tok c) \<noteq> TEOF"
  using assms by (auto simp: letItem_def IsArg_def split: if_splits)

lemma letData_range:
  assumes "letData F sz c = Inr c'" and "coherent c"
  shows "\<forall>k. pos c \<le> k \<and> k < pos c' \<longrightarrow> Type (toks c ! k) \<noteq> TWord"
  using assms
proof (induction F sz c rule: letData.induct)
  case (1 F sz c)
  from "1.prems"(1) obtain c1 c2 where i: "letItem F sz c = Inr c1" and n: "nextTok c1 = Inr c2"
    by (subst (asm) letData.simps) (auto split: sum.splits)
  from letItem_frame [OF i] obtain bs where
    c1: "c1 = c\<lparr>memory := memory c @ bs, memorySize := memorySize c + of_nat (length bs)\<rparr>"
    by blast
  from letItem_not_word [OF i] "1.prems"(2)
  have t0: "Type (toks c ! pos c) \<noteq> TWord" and ne: "Type (tok c1) \<noteq> TEOF"
    by (simp_all add: coherent_def c1)
  from nextTok_advance [OF n ne] have k1: "pos c + 1 < length (toks c)"
    and c2: "c2 = c1\<lparr>pos := pos c + 1, tok := toks c ! (pos c + 1)\<rparr>"
    by (simp_all add: c1)
  show ?case
  proof (cases "Type (tok c2) \<noteq> TComma")
    case True
    with "1.prems"(1) i n have "c' = c2" by (subst (asm) letData.simps) simp
    with c2 t0 show ?thesis by (auto simp: le_less_Suc_eq)
  next
    case False
    with "1.prems"(1) i n obtain c3 where n3: "nextTok c2 = Inr c3" and r: "letData F sz c3 = Inr c'"
      by (subst (asm) letData.simps) (auto split: sum.splits)
    from False c2 have cm: "Type (toks c ! (pos c + 1)) = TComma" by simp
    with False c2 have "Type (tok c2) \<noteq> TEOF" by simp
    from nextTok_advance [OF n3 this] have k2: "pos c + 2 < length (toks c)"
      and c3: "c3 = c2\<lparr>pos := pos c + 2, tok := toks c ! (pos c + 2)\<rparr>"
      by (simp_all add: c2 c1 add.commute)
    have co3: "coherent c3" using k2 by (simp add: coherent_def c3 c2 c1)
    from "1.IH" [OF i n False n3 r co3]
    have ih: "\<forall>k. pos c + 2 \<le> k \<and> k < pos c' \<longrightarrow> Type (toks c ! k) \<noteq> TWord"
      by (simp add: c3 c2 c1)
    show ?thesis
    proof (intro allI impI)
      fix k
      assume k: "pos c \<le> k \<and> k < pos c'"
      consider "k = pos c" | "k = pos c + 1" | "pos c + 2 \<le> k" using k by linarith
      then show "Type (toks c ! k) \<noteq> TWord"
      proof cases
        case 1
        with t0 show ?thesis by simp
      next
        case 2
        with cm show ?thesis by simp
      next
        case 3
        with ih k show ?thesis by simp
      qed
    qed
  qed
qed


text \<open>A \<^verbatim>\<open>let\<close> consumes its keyword, the name, the size specifier and its data: no
  token but the name is a word, and the program region is left alone.\<close>

lemma compileLet_range:
  assumes cl: "compileLet F c = Inr c'" and co: "coherent c"
  shows "pos c + 1 < pos c' \<and> pos c' < length (toks c) \<and> program c' = program c
       \<and> (\<forall>k. pos c + 2 \<le> k \<and> k < pos c' \<longrightarrow> Type (toks c ! k) \<noteq> TWord)"
proof -
  from cl obtain c1 where n1: "nextTok c = Inr c1"
    by (auto simp: compileLet_def split: sum.splits)
  from compileLet_frame [OF cl] have neof: "Type (tok c) \<noteq> TEOF" by simp
  from nextTok_advance [OF n1 neof]
  have c1: "c1 = c\<lparr>pos := pos c + 1, tok := toks c ! (pos c + 1)\<rparr>" by simp
  from cl n1 have w: "Type (tok c1) = TWord"
    by (auto simp: compileLet_def split: if_splits)
  define c2 where "c2 = c1\<lparr>vars := (vars c1)(Data (tok c1) \<mapsto> memorySize c1 + 1)\<rparr>"
  from cl n1 w obtain c3 sz c4 where n3: "nextTok c2 = Inr c3"
    and es: "elemSize (Type (tok c3)) = Some sz"
    and n4: "nextTok c3 = Inr c4" and ld: "letData F sz c4 = Inr c'"
    by (auto simp: compileLet_def Let_def c2_def split: if_splits sum.splits option.splits)
  from w have "Type (tok c2) \<noteq> TEOF" by (simp add: c2_def)
  from nextTok_advance [OF n3 this]
  have k2: "pos c + 2 < length (toks c)"
    and c3: "c3 = c2\<lparr>pos := pos c + 2, tok := toks c ! (pos c + 2)\<rparr>"
    by (simp_all add: c2_def c1 add.commute)
  from es have "Type (tok c3) \<noteq> TEOF"
    by (auto simp: elemSize_def split: if_splits)
  from nextTok_advance [OF n4 this]
  have k3: "pos c + 3 < length (toks c)"
    and c4: "c4 = c3\<lparr>pos := pos c + 3, tok := toks c ! (pos c + 3)\<rparr>"
    by (simp_all add: c3 c2_def c1 eval_nat_numeral)
  have co4: "coherent c4" using k3 by (simp add: coherent_def c4 c3 c2_def c1)
  from es c3 have sz: "Type (toks c ! (pos c + 2)) \<noteq> TWord"
    by (auto simp: elemSize_def split: if_splits)
  from letData_range [OF ld co4]
  have r: "\<forall>k. pos c + 3 \<le> k \<and> k < pos c' \<longrightarrow> Type (toks c ! k) \<noteq> TWord"
    by (simp add: c4 c3 c2_def c1)
  from letData_frame [OF ld] have p: "pos c + 3 \<le> pos c'" and pr: "program c' = program c"
    by (auto simp: c4 c3 c2_def c1)
  from letData_coherent [OF ld co4] letData_frame [OF ld] have lt: "pos c' < length (toks c)"
    by (auto simp: coherent_def c4 c3 c2_def c1)
  have "Type (toks c ! k) \<noteq> TWord" if "pos c + 2 \<le> k \<and> k < pos c'" for k
  proof (cases "k = pos c + 2")
    case True
    with sz show ?thesis by simp
  next
    case False
    with that have "pos c + 3 \<le> k \<and> k < pos c'" by linarith
    with r show ?thesis by simp
  qed
  with p pr lt show ?thesis by simp
qed

text \<open>An instruction consumes its word and, if it has one, its argument, which is not a
  word, and appends one record of nine bytes.\<close>

lemma compileInst_range:
  assumes ci: "compileInst I F c = Inr c'" and co: "coherent c" and w: "Type (tok c) = TWord"
  shows "isInstWord I (toks c ! pos c) \<and> length (program c') = length (program c) + 9
       \<and> pos c' < length (toks c)
       \<and> (pos c' = pos c + 1 \<or> pos c' = pos c + 2 \<and> Type (toks c ! (pos c + 1)) \<noteq> TWord)"
  using ci
proof (cases rule: compileInst_Inr)
  case (1 i c1)
  from w have "Type (tok c) \<noteq> TEOF" by simp
  from nextTok_advance [OF 1(2) this] 1 co w show ?thesis
    by (simp add: coherent_def isInstWord_def writeInst_def length_be_bytes)
next
  case (2 i c1 d c2)
  from w have "Type (tok c) \<noteq> TEOF" by simp
  from nextTok_advance [OF 2(2) this] have k1: "pos c + 1 < length (toks c)"
    and c1: "c1 = c\<lparr>pos := pos c + 1, tok := toks c ! (pos c + 1)\<rparr>"
    by simp_all
  from 2(3) c1 have a: "Type (toks c ! (pos c + 1)) \<noteq> TWord \<and> Type (tok c1) \<noteq> TEOF"
    by (auto simp: IsArg_def)
  then have "Type (tok c1) \<noteq> TEOF" by simp
  from nextTok_advance [OF 2(6) this] have "pos c + 2 < length (toks c)"
    and "c2 = c1\<lparr>pos := pos c + 2, tok := toks c ! (pos c + 2)\<rparr>"
    by (simp_all add: c1 add.commute)
  with 2 co w a c1 show ?thesis
    by (simp add: coherent_def isInstWord_def writeInst_def length_be_bytes)
qed

lemma compileStep_records:
  assumes st: "compileStep I F c = Inr c'" and neof: "Type (tok c) \<noteq> TEOF"
    and co: "coherent c" and nc: "\<not> nameClash I (toks c)"
    and inv: "length (program c) = 9 * instCount I (take (pos c) (toks c))"
  shows "length (program c') = 9 * instCount I (take (pos c') (toks c))"
proof (cases "Type (toks c ! pos c) = TWord")
  case True
  with st have ci: "compileInst I F c = Inr c'"
    by (simp add: compileStep_def split: if_splits)
  from True co have w: "Type (tok c) = TWord" and k: "pos c < length (toks c)"
    by (simp_all add: coherent_def)
  from compileInst_range [OF ci co w]
  have iw: "isInstWord I (toks c ! pos c)" and l: "length (program c') = length (program c) + 9"
    and lt: "pos c' < length (toks c)"
    and p: "pos c' = pos c + 1 \<or> pos c' = pos c + 2 \<and> Type (toks c ! (pos c + 1)) \<noteq> TWord"
    by blast+
  have 1: "instCount I (take (pos c + 1) (toks c)) = instCount I (take (pos c) (toks c)) + 1"
    using instCount_take_Suc [OF k, of I] iw by simp
  from p show ?thesis
  proof
    assume "pos c' = pos c + 1"
    with 1 l inv show ?thesis by simp
  next
    assume a: "pos c' = pos c + 2 \<and> Type (toks c ! (pos c + 1)) \<noteq> TWord"
    with lt have "pos c + 1 < length (toks c)" by simp
    from instCount_take_Suc [OF this, of I] a
    have "instCount I (take (pos c + 2) (toks c)) = instCount I (take (pos c + 1) (toks c))"
      by (simp add: isInstWord_def)
    with 1 l inv a show ?thesis by simp
  qed
next
  case False
  with st have lt: "Type (toks c ! pos c) = TLet" and cl: "compileLet F c = Inr c'"
    by (simp_all add: compileStep_def split: if_splits)
  from compileLet_range [OF cl co]
  have p: "pos c + 1 < pos c'" and l: "pos c' < length (toks c)" and pr: "program c' = program c"
    and r: "\<forall>k. pos c + 2 \<le> k \<and> k < pos c' \<longrightarrow> Type (toks c ! k) \<noteq> TWord"
    by blast+
  from nc lt p l have nm: "\<not> isInstWord I (toks c ! (pos c + 1))"
    by (auto simp: nameClash_def)
  have "\<not> isInstWord I (toks c ! k)" if h: "pos c \<le> k \<and> k < pos c'" for k
  proof -
    consider "k = pos c" | "k = pos c + 1" | "pos c + 2 \<le> k" using h by linarith
    then show ?thesis
    proof cases
      case 1
      with lt show ?thesis by (simp add: isInstWord_def)
    next
      case 2
      with nm show ?thesis by simp
    next
      case 3
      with r h show ?thesis by (simp add: isInstWord_def)
    qed
  qed
  then have "\<forall>k. pos c \<le> k \<and> k < pos c' \<longrightarrow> \<not> isInstWord I (toks c ! k)" by blast
  from instCount_take_none [OF _ _ this] p l
  have "instCount I (take (pos c') (toks c)) = instCount I (take (pos c) (toks c))" by simp
  with pr inv show ?thesis by simp
qed

lemma compileReach_records:
  assumes "compileReach I F c0 c" and "coherent c0"
    and "\<forall>n. vars c0 n \<noteq> None \<longrightarrow> (\<exists>j<pos c0. letAt (toks c0) j n)"
    and "\<not> nameClash I (toks c0)"
    and "length (program c0) = 9 * instCount I (take (pos c0) (toks c0))"
  shows "length (program c) = 9 * instCount I (take (pos c) (toks c))"
  using assms
proof (induction rule: compileReach.induct)
  case start
  then show ?case by simp
next
  case (step c c')
  from compileReach_invariant [OF step.hyps(1) step.prems(1,2)]
  have t: "toks c = toks c0" and co: "coherent c" by blast+
  from compileReach_invariant [OF compileReach.step [OF step.hyps(1,2,3)] step.prems(1,2)]
  have t': "toks c' = toks c0" by blast
  from step.prems(3) t have nc: "\<not> nameClash I (toks c)" by simp
  from compileStep_records [OF step.hyps(3,2) co nc step.IH [OF step.prems]] t t'
  show ?case by simp
qed


lemma preprocLoop_toks:
  assumes "preprocLoop I l c = Inr c'" and "\<forall>t\<in>set l. Type t \<noteq> TEOF"
  shows "toks c' = toks c @ filter (\<lambda>t. Type t \<noteq> TLabel) l"
  using assms
proof (induction l arbitrary: c)
  case Nil
  then show ?case by auto
next
  case (Cons a l)
  from Cons.prems(2) have neof: "Type a \<noteq> TEOF" and rest: "\<forall>t\<in>set l. Type t \<noteq> TEOF"
    by simp_all
  show ?case
  proof (cases "Type a = TLabel")
    case True
    with Cons.prems(1) neof
    have 1: "preprocLoop I l (c\<lparr>tok := a, labels := (labels c)(Data a \<mapsto> of_nat (pos c))\<rparr>) = Inr c'"
      by (auto split: if_splits)
    from Cons.IH [OF 1 rest] True show ?thesis by simp
  next
    case False
    show ?thesis
    proof (cases "Type a = TWord \<and> I (Data a) \<noteq> None")
      case True
      with Cons.prems(1) neof False
      have 1: "preprocLoop I l (c\<lparr>tok := a, pos := pos c + 1, toks := toks c @ [a]\<rparr>) = Inr c'"
        by (simp split: if_splits)
      from Cons.IH [OF 1 rest] False show ?thesis by simp
    next
      case oth: False
      with Cons.prems(1) neof False
      have 1: "preprocLoop I l (c\<lparr>tok := a, toks := toks c @ [a]\<rparr>) = Inr c'"
        by (auto split: if_splits)
      from Cons.IH [OF 1 rest] False show ?thesis by simp
    qed
  qed
qed

lemma preproc_toks:
  assumes "preproc I l New = Inr c1" and "\<forall>t\<in>set l. Type t \<noteq> TEOF"
  shows "\<exists>t. toks c1 = filter (\<lambda>t. Type t \<noteq> TLabel) l @ [t]"
proof -
  from assms(1) obtain c' where l: "preprocLoop I l New = Inr c'"
    and "toks c1 = toks c' @ [tok c']"
    by (auto simp: preproc_def split: sum.splits option.splits)
  with preprocLoop_toks [OF l assms(2)] show ?thesis by (simp add: New_def)
qed

text \<open>
  In a program none of whose variables bears the name of an instruction, the value of a
  label is the index of the record that the compile pass emits next when its cursor
  stands where the label was declared: the instruction that follows the declaration.
\<close>

lemma label_is_next_record:
  assumes pre: "preproc I (xs @ lab # ys) New = Inr c1" and lab: "Type lab = TLabel"
    and neof: "\<forall>t\<in>set (xs @ lab # ys). Type t \<noteq> TEOF"
    and nc: "\<not> nameClash I (toks c1)"
    and reach: "compileReach I F (compileStart c1) c"
    and at: "pos c = length (filter (\<lambda>t. Type t \<noteq> TLabel) xs)"
  shows "labels c1 (Data lab) = Some (of_nat (length (program c) div 9))"
proof -
  from neof have nx: "\<forall>t\<in>set xs. Type t \<noteq> TEOF" by simp
  note n = preproc_New [OF pre]
  have co: "coherent (compileStart c1)"
    using n(5) by (simp add: coherent_def compileStart_def hd_conv_nth)
  have vd: "\<forall>n. vars (compileStart c1) n \<noteq> None
      \<longrightarrow> (\<exists>j<pos (compileStart c1). letAt (toks (compileStart c1)) j n)"
    using n(1) by (simp add: compileStart_def)
  have nc0: "\<not> nameClash I (toks (compileStart c1))"
    using nc by (simp add: compileStart_def)
  have p0: "length (program (compileStart c1))
      = 9 * instCount I (take (pos (compileStart c1)) (toks (compileStart c1)))"
    using n(4) by (simp add: compileStart_def instCount_def)
  from compileReach_records [OF reach co vd nc0 p0]
  have r: "length (program c) = 9 * instCount I (take (pos c) (toks c))" .
  from compile_pass_invariant(1) [OF pre reach] have t: "toks c = toks c1" .
  from preproc_toks [OF pre neof] lab obtain e where
    "toks c1 = filter (\<lambda>t. Type t \<noteq> TLabel) xs @ filter (\<lambda>t. Type t \<noteq> TLabel) ys @ [e]"
    by auto
  with at t have "take (pos c) (toks c) = filter (\<lambda>t. Type t \<noteq> TLabel) xs" by simp
  with r have "length (program c) = 9 * instCount I xs"
    by (simp add: instCount_no_labels)
  with preproc_labels [OF pre lab nx] show ?thesis by simp
qed

text \<open>
  C2. The claim is that the operand of a forward reference is the instruction-slot index of
  the instruction that follows the label declaration. The counter of \<^verbatim>\<open>preproc\<close> counts
  every word that names an instruction, also the name of a variable after \<^verbatim>\<open>let\<close>, for
  which the compile pass emits no record. For \<^verbatim>\<open>let halt sz8 1\<close>, \<^verbatim>\<open>entry: jmp @L\<close>,
  \<^verbatim>\<open>L: halt\<close> both passes succeed, the label \<open>L\<close> is bound to 2, the entry point is 1 and
  the program size is 3, while the program region holds two records: \<^verbatim>\<open>jmp\<close> with operand
  2 at slot 0 and the \<^verbatim>\<open>halt\<close> that follows \<open>L\<close> at slot 1. Without such a variable
  the operand is the index of the record that follows the label (\<open>label_is_next_record\<close>,
  \<open>label_reference_resolves\<close>).
\<close>

theorem label_slot_with_instruction_named_variable:
  "preproc demoInsts namedProgram New = Inr namedState
   \<and> labels namedState ''L'' = Some 2
   \<and> programSize namedState = 3
   \<and> entryPoint namedState = 1
   \<and> program (projr (compile demoInsts noFloat namedState))
       = [14, 0, 0, 0, 0, 0, 0, 0, 2] @ [21, 0, 0, 0, 0, 0, 0, 0, 0]"
proof -
  have p: "preproc demoInsts namedProgram New = Inr namedState"
    by (simp add: namedProgram_def namedState_def preproc_def New_def eofToken_def tk_def
        demoInsts_def)
  have c: "program (projr (compile demoInsts noFloat namedState))
       = [14, 0, 0, 0, 0, 0, 0, 0, 2] @ [21, 0, 0, 0, 0, 0, 0, 0, 0]"
    by (simp add: namedState_def New_def eofToken_def tk_def demoInsts_def compile_def
        compileLoop.simps compileStep_def compileInst_def compileLet_def letData.simps
        letItem_def elemSize_def writeMemory_def nextTok_def IsArg_def writeInst_def parse_defs
        be_bytes_8 Let_def)
  have l: "labels namedState ''L'' = Some 2" "programSize namedState = 3"
    "entryPoint namedState = 1"
    by (simp_all add: namedState_def New_def)
  from p c l show ?thesis by simp
qed

end
